theory Spec2Isabelle
  imports Main "HOL-Library.Multiset"
begin

section \<open>Data model\<close>

text \<open>
  The graph types of the repository: a \<open>Dependency\<close> is a name with the standalone
  flag, a \<open>Factory\<close> is one node of the graph. A Go \<open>map[string]*Factory\<close> has unique
  keys and an iteration order that the runtime chooses at every \<open>range\<close>; the container
  is therefore an association list, read in the order in which \<open>range\<close> yields its
  entries, and looked up with \<open>map_of\<close>; the theorems about all containers assume that
  its keys are distinct. The values, and the entries of \<open>Deps\<close>, are taken to be non-nil
  pointers.
\<close>

record Dependency =
  Name :: string
  Standalone :: bool

record Factory =
  Alias :: string
  Function :: string
  Deps :: "Dependency list"
  Module :: string
  Final :: bool
  Disable :: bool
  File :: string
  Pos :: string

type_synonym container = "(string \<times> Factory) list"

text \<open>
  The failures of \<open>BuildOrder\<close>: its three \<open>fmt.Errorf\<close> returns, and the run-time panic
  of \<open>container[dep.Name].Final\<close> when \<open>dep.Name\<close> keys no factory (the map yields a nil
  pointer, whose field is then read).
\<close>

datatype build_error =
  FinalDependency string string
| DisableDependency string string
| CircularDependency
| NilPointerPanic

fun error_message :: "build_error \<Rightarrow> string" where
  "error_message (FinalDependency d a) =
     ''final item '' @ d @ '' cannot be a dependency of '' @ a"
| "error_message (DisableDependency d a) =
     ''disable item '' @ d @ '' cannot be a dependency of '' @ a"
| "error_message CircularDependency = ''circular dependency detected''"
| "error_message NilPointerPanic =
     ''runtime error: invalid memory address or nil pointer dereference''"

section \<open>BuildOrder\<close>

text \<open>
  \<open>BuildOrder\<close> is lines 17 to 77 of \<open>src/unnamed/part_002\<close>; the line numbers of
  this section and of the section on the code emitter are those of that file.
  \<open>indegree\<close> is a \<open>map[string]int\<close>: an association list with one entry per key, read
  with \<open>deg\<close> (a missing key reads as 0, as in Go) and written with \<open>put\<close>. Go's \<open>int\<close>
  has 64 bits; a count of list elements cannot leave that range, so it is an \<open>int\<close>
  here. \<open>graph\<close> is a \<open>map[string][]string\<close> that is only read and appended to: a
  function whose value at a missing key is the empty slice.
\<close>

type_synonym indegree = "(string \<times> int) list"
type_synonym graph = "string \<Rightarrow> string list"

definition deg :: "indegree \<Rightarrow> string \<Rightarrow> int" where
  "deg m k = (case map_of m k of None \<Rightarrow> 0 | Some v \<Rightarrow> v)"

fun put :: "string \<Rightarrow> int \<Rightarrow> indegree \<Rightarrow> indegree" where
  "put k v [] = [(k, v)]"
| "put k v ((k', v') # m) = (if k' = k then (k, v) # m else (k', v') # put k v m)"

text \<open>Lines 26 to 37: the edges of one factory, with the two checks on each dependency.\<close>

fun add_edges ::
  "(string \<rightharpoonup> Factory) \<Rightarrow> string \<Rightarrow> Dependency list \<Rightarrow> indegree \<times> graph
     \<Rightarrow> build_error + indegree \<times> graph" where
  "add_edges c alias [] s = Inr s"
| "add_edges c alias (dep # deps) (ind, g) =
     (case c (Name dep) of
        None \<Rightarrow> Inl NilPointerPanic
      | Some df \<Rightarrow>
          if Final df then Inl (FinalDependency (Name dep) alias)
          else if Disable df then Inl (DisableDependency (Name dep) alias)
          else add_edges c alias deps
                 (put alias (deg ind alias + 1) ind, g(Name dep := g (Name dep) @ [alias])))"

text \<open>Lines 22 to 38: the loop over the container.\<close>

fun build_graph ::
  "(string \<rightharpoonup> Factory) \<Rightarrow> container \<Rightarrow> indegree \<times> graph \<Rightarrow> build_error + indegree \<times> graph" where
  "build_graph c [] s = Inr s"
| "build_graph c ((alias, f) # rest) (ind, g) =
     (case add_edges c alias (Deps f)
             (if map_of ind alias = None then put alias 0 ind else ind, g) of
        Inl e \<Rightarrow> Inl e
      | Inr s' \<Rightarrow> build_graph c rest s')"

text \<open>Lines 54 to 59: the successors of the node just emitted.\<close>

fun relax :: "string list \<Rightarrow> indegree \<Rightarrow> string list \<Rightarrow> indegree \<times> string list" where
  "relax [] ind queue = (ind, queue)"
| "relax (next # rest) ind queue =
     (let ind' = put next (deg ind next - 1) ind
      in relax rest ind' (if deg ind' next = 0 then queue @ [next] else queue))"

definition positives :: "indegree \<Rightarrow> nat" where
  "positives m = length (filter (\<lambda>kv. 0 < snd kv) m)"

lemma positives_put_le: "positives (put k (deg m k - 1) m) \<le> positives m"
  by (induction m) (auto simp: positives_def deg_def)

lemma positives_put_zero:
  "deg m k = 1 \<Longrightarrow> Suc (positives (put k 0 m)) = positives m"
  by (induction m) (auto simp: positives_def deg_def)

lemma deg_put: "deg (put k v m) k' = (if k' = k then v else deg m k')"
  by (induction m) (auto simp: deg_def)

lemma relax_measure:
  "relax xs ind q = (ind', q') \<Longrightarrow> length q' + positives ind' \<le> length q + positives ind"
proof (induction xs arbitrary: ind q)
  case Nil
  then show ?case by simp
next
  case (Cons x xs)
  let ?i = "put x (deg ind x - 1) ind"
  show ?case
  proof (cases "deg ind x = 1")
    case True
    then have r: "relax xs (put x 0 ind) (q @ [x]) = (ind', q')"
      using Cons.prems by (simp add: deg_put)
    have "length q' + positives ind' \<le> length (q @ [x]) + positives (put x 0 ind)"
      by (rule Cons.IH [OF r])
    with positives_put_zero [OF True] show ?thesis by simp
  next
    case False
    then have r: "relax xs ?i q = (ind', q')"
      using Cons.prems by (simp add: deg_put Let_def)
    have "length q' + positives ind' \<le> length q + positives ?i"
      by (rule Cons.IH [OF r])
    with positives_put_le [of x ind] show ?thesis by simp
  qed
qed

text \<open>
  Lines 48 to 60: the queue-draining loop. Each round takes one node from the queue, and
  every node it appends has just lost its last positive count, so the loop ends.
\<close>

function drain :: "graph \<Rightarrow> string list \<Rightarrow> indegree \<Rightarrow> string list \<Rightarrow> string list" where
  "drain g [] ind order = order"
| "drain g (node # queue) ind order =
     (case relax (g node) ind queue of
        (ind', queue') \<Rightarrow> drain g queue' ind' (order @ [node]))"
  by pat_completeness auto
termination
proof (relation "measure (\<lambda>(g, queue, ind, order). length queue + positives ind)", goal_cases)
  case 1
  show ?case by simp
next
  case (2 g node queue ind order ind' queue')
  then have "relax (g node) ind queue = (ind', queue')" by simp
  from relax_measure [OF this] show ?case by simp
qed

text \<open>Lines 66 to 76: non-final aliases first, final ones after them.\<close>

fun split_finals ::
  "(string \<rightharpoonup> Factory) \<Rightarrow> string list \<Rightarrow> string list \<Rightarrow> string list
     \<Rightarrow> build_error + string list" where
  "split_finals c [] normal finals = Inr (normal @ finals)"
| "split_finals c (alias # rest) normal finals =
     (case c alias of
        None \<Rightarrow> Inl NilPointerPanic
      | Some f \<Rightarrow>
          if Final f then split_finals c rest normal (finals @ [alias])
          else split_finals c rest (normal @ [alias]) finals)"

text \<open>
  Lines 18 to 60, up to the end of the queue-draining loop. \<open>ns\<close> is the order in which
  \<open>range indegree\<close> yields the keys of \<open>indegree\<close>, which are the keys of the container.
\<close>

definition kahn_order :: "container \<Rightarrow> string list \<Rightarrow> build_error + string list" where
  "kahn_order container ns =
     (case build_graph (map_of container) container ([], \<lambda>_. []) of
        Inl e \<Rightarrow> Inl e
      | Inr (ind, g) \<Rightarrow> Inr (drain g (filter (\<lambda>n. deg ind n = 0) ns) ind []))"

definition BuildOrder :: "container \<Rightarrow> string list \<Rightarrow> build_error + string list" where
  "BuildOrder container ns =
     (case kahn_order container ns of
        Inl e \<Rightarrow> Inl e
      | Inr order \<Rightarrow>
          if length order \<noteq> length container then Inl CircularDependency
          else split_finals (map_of container) order [] [])"

definition is_final :: "container \<Rightarrow> string \<Rightarrow> bool" where
  "is_final container a = (case map_of container a of None \<Rightarrow> False | Some f \<Rightarrow> Final f)"

section \<open>The dependency graph of a container\<close>

text \<open>
  The words of the claims, as predicates on a container. \<open>dep_rel\<close> is the edge
  relation, from a dependency name to the alias that lists it. \<open>deps_resolved\<close> says
  that every dependency name keys a factory, \<open>no_flagged_deps\<close> that no dependency
  names a factory flagged Final or Disable. \<open>enumerates\<close> says that a list is a
  possible order of \<open>range\<close> over a map with the keys of the container.
  \<open>position\<close> is the index of the first occurrence of an alias in an order.
\<close>

definition dep_names :: "Factory \<Rightarrow> string list" where
  "dep_names f = map Name (Deps f)"

definition deps_of :: "(string \<rightharpoonup> Factory) \<Rightarrow> string \<Rightarrow> string list" where
  "deps_of c a = (case c a of None \<Rightarrow> [] | Some f \<Rightarrow> dep_names f)"

definition dep_rel :: "container \<Rightarrow> (string \<times> string) set" where
  "dep_rel kvs = {(d, a). d \<in> set (deps_of (map_of kvs) a)}"

definition deps_resolved :: "container \<Rightarrow> bool" where
  "deps_resolved kvs =
     list_all (\<lambda>(a, f). list_all (\<lambda>dep. map_of kvs (Name dep) \<noteq> None) (Deps f)) kvs"

definition flagged :: "container \<Rightarrow> Dependency \<Rightarrow> bool" where
  "flagged kvs dep =
     (case map_of kvs (Name dep) of None \<Rightarrow> False | Some df \<Rightarrow> Final df \<or> Disable df)"

definition no_flagged_deps :: "container \<Rightarrow> bool" where
  "no_flagged_deps kvs = list_all (\<lambda>(a, f). list_all (\<lambda>dep. \<not> flagged kvs dep) (Deps f)) kvs"

definition usable :: "(string \<rightharpoonup> Factory) \<Rightarrow> Dependency \<Rightarrow> bool" where
  "usable c dep = (case c (Name dep) of None \<Rightarrow> False | Some df \<Rightarrow> \<not> Final df \<and> \<not> Disable df)"

definition usable_deps :: "container \<Rightarrow> bool" where
  "usable_deps kvs = list_all (\<lambda>(a, f). list_all (usable (map_of kvs)) (Deps f)) kvs"

definition enumerates :: "string list \<Rightarrow> container \<Rightarrow> bool" where
  "enumerates ns kvs = (distinct ns \<and> set ns = set (map fst kvs))"

definition position :: "string list \<Rightarrow> string \<Rightarrow> nat" where
  "position xs x = length (takeWhile (\<lambda>y. y \<noteq> x) xs)"

definition before :: "'a list \<Rightarrow> 'a \<Rightarrow> 'a \<Rightarrow> bool" where
  "before xs d a = (\<exists>us vs. xs = us @ a # vs \<and> d \<in> set us)"

text \<open>What lines 27 to 33 do with one dependency: the failure, if there is one.\<close>

definition edge_error :: "(string \<rightharpoonup> Factory) \<Rightarrow> string \<Rightarrow> Dependency \<Rightarrow> build_error option" where
  "edge_error c alias dep =
     (case c (Name dep) of
        None \<Rightarrow> Some NilPointerPanic
      | Some df \<Rightarrow>
          if Final df then Some (FinalDependency (Name dep) alias)
          else if Disable df then Some (DisableDependency (Name dep) alias)
          else None)"

text \<open>
  The loop invariant of the queue-draining loop. \<open>graph_of\<close> ties the adjacency
  lists to the dependency lists; \<open>kahn_inv\<close> says that emitted and queued aliases are
  distinct keys of the container, that the count of an alias is the number of its
  dependency entries not emitted yet, that the aliases with count 0 are exactly the
  emitted and the queued ones, and that every emitted alias comes after its dependencies.
\<close>

definition graph_of :: "(string \<rightharpoonup> Factory) \<Rightarrow> graph \<Rightarrow> bool" where
  "graph_of c g = (\<forall>d a. count_list (g d) a = count_list (deps_of c a) d)"

definition kahn_inv ::
  "(string \<rightharpoonup> Factory) \<Rightarrow> string list \<Rightarrow> indegree \<Rightarrow> string list \<Rightarrow> bool" where
  "kahn_inv c q ind ord =
     (distinct (ord @ q)
      \<and> set (ord @ q) \<subseteq> dom c
      \<and> (\<forall>a. deg ind a = int (length (filter (\<lambda>d. d \<notin> set ord) (deps_of c a))))
      \<and> (\<forall>a \<in> dom c. a \<in> set (ord @ q) \<longleftrightarrow> deg ind a = 0)
      \<and> (\<forall>a \<in> set ord. \<forall>d \<in> set (deps_of c a). before ord d a))"

section \<open>Annotations and their parser\<close>

text \<open>
  The \<open>Annotation\<close> interface has four implementations, told apart by \<open>Type()\<close>: a
  datatype with one constructor for each, whose arguments are the struct's fields in
  their order (\<open>Path\<close>, \<open>Function\<close>, \<open>Alias\<close>, \<open>File\<close>, \<open>Pos\<close> for a factory;
  \<open>Path\<close>, \<open>Target\<close>, \<open>Deps\<close>, \<open>File\<close>, \<open>Pos\<close> for a wire; \<open>Path\<close>,
  \<open>Target\<close>, \<open>File\<close>, \<open>Pos\<close> for the other two). The scanner fills \<open>Path\<close> and
  the two or three fields after it and leaves \<open>File\<close> and \<open>Pos\<close> empty. The fields
  \<open>File\<close> and \<open>Pos\<close> of \<open>AnnotationMetadata\<close> are \<open>File_md\<close> and \<open>Pos_md\<close> here,
  since a factory has fields of the same names.
\<close>

datatype Annotation =
  FactoryAnnotation string string string string string
| WireAnnotation string string "string list" string string
| FinalAnnotation string string string string
| DisableAnnotation string string string string

fun Type :: "Annotation \<Rightarrow> string" where
  "Type (FactoryAnnotation path func alias file pos) = ''Factory''"
| "Type (WireAnnotation path target deps file pos) = ''Wire''"
| "Type (FinalAnnotation path target file pos) = ''Final''"
| "Type (DisableAnnotation path target file pos) = ''Disable''"

record AnnotationMetadata =
  Key :: string
  Value :: string
  File_md :: string
  Line :: int
  Path :: string
  Pos_md :: string

text \<open>
  The failures of the scanner: an \<open>errors.New\<close> with its message, and the run-time panic
  of an index expression, with the index and the length.
\<close>

datatype scan_error = ErrorString string | IndexOutOfRange nat nat

text \<open>
  The functions of package \<open>strings\<close> that the scanner calls. \<open>TrimSpace\<close> removes
  the ASCII white space at both ends (the white space of the inputs considered here);
  \<open>Split\<close> cuts at every occurrence of a non-empty separator, from the left (the
  source calls it with the separators of lines 65, 82 and 174 only); an index expression
  panics out of range.
\<close>

definition isSpace :: "char \<Rightarrow> bool" where
  "isSpace c = (c \<in> set [CHR 0x09, CHR 0x0A, CHR 0x0B, CHR 0x0C, CHR 0x0D, CHR '' ''])"

definition TrimSpace :: "string \<Rightarrow> string" where
  "TrimSpace s = rev (dropWhile isSpace (rev (dropWhile isSpace s)))"

definition HasPrefix :: "string \<Rightarrow> string \<Rightarrow> bool" where
  "HasPrefix s p = (take (length p) s = p)"

fun split_from :: "string \<Rightarrow> string \<Rightarrow> string \<Rightarrow> string list" where
  "split_from sep acc [] = [acc]"
| "split_from sep acc (c # cs) =
     (if sep \<noteq> [] \<and> take (length sep) (c # cs) = sep
      then acc # split_from sep [] (drop (length sep - 1) cs)
      else split_from sep (acc @ [c]) cs)"

definition Split :: "string \<Rightarrow> string \<Rightarrow> string list" where
  "Split s sep = split_from sep [] s"

definition index :: "'a list \<Rightarrow> nat \<Rightarrow> scan_error + 'a" where
  "index xs i = (if i < length xs then Inr (xs ! i) else Inl (IndexOutOfRange i (length xs)))"

text \<open>
  \<open>FindStringSubmatch\<close> of the pattern of line 76 (one or more word characters, an
  opening parenthesis, any characters but a closing parenthesis, a closing parenthesis,
  the end of the text): the whole match and the two groups, or nil. The name is the
  longest run of word characters, the parenthesis must follow it, and the closing
  parenthesis must be the last character.
\<close>

definition isWord :: "char \<Rightarrow> bool" where
  "isWord c = (let n = of_char c :: nat in
     (65 \<le> n \<and> n \<le> 90) \<or> (97 \<le> n \<and> n \<le> 122) \<or> (48 \<le> n \<and> n \<le> 57) \<or> n = 95)"

definition wireRe :: "string \<Rightarrow> string list" where
  "wireRe s =
     (let name = takeWhile isWord s; rest = dropWhile isWord s
      in case rest of
           [] \<Rightarrow> []
         | c # inner_etc \<Rightarrow>
             (let inner = takeWhile (\<lambda>x. x \<noteq> CHR '')'') inner_etc;
                  close = dropWhile (\<lambda>x. x \<noteq> CHR '')'') inner_etc
              in if name \<noteq> [] \<and> c = CHR ''('' \<and> close = '')'' then [s, name, inner] else []))"

text \<open>
  Lines 63 to 93 of \<open>src/unnamed/part_000\<close>, \<open>parseFactoryAnnotation\<close> and
  \<open>parseWireAnnotation\<close>.
\<close>

definition parseFactoryAnnotation :: "AnnotationMetadata \<Rightarrow> scan_error + Annotation" where
  "parseFactoryAnnotation ann =
     (let value = TrimSpace (Value ann); splitted = Split value ''->''
      in case index splitted 0 of
           Inl e \<Rightarrow> Inl e
         | Inr s0 \<Rightarrow>
             (case index splitted 1 of
                Inl e \<Rightarrow> Inl e
              | Inr s1 \<Rightarrow>
                  Inr (FactoryAnnotation (Path ann) (TrimSpace s0) (TrimSpace s1) [] [])))"

definition parseWireAnnotation :: "AnnotationMetadata \<Rightarrow> scan_error + Annotation" where
  "parseWireAnnotation ann =
     (let m = wireRe (TrimSpace (Value ann))
      in case index m 1 of
           Inl e \<Rightarrow> Inl e
         | Inr funcName \<Rightarrow>
             (case index m 2 of
                Inl e \<Rightarrow> Inl e
              | Inr m2 \<Rightarrow>
                  Inr (WireAnnotation (Path ann) funcName
                        (if TrimSpace m2 \<noteq> [] then map TrimSpace (Split m2 '','') else [])
                        [] [])))"

section \<open>The graph builder\<close>

text \<open>
  Lines 137 to 189 of \<open>src/unnamed/part_000\<close>, in \<open>ScanProjectAndGenerateDI\<close>: the
  container is built from the list of annotations in two passes. \<open>Join\<close> stands for
  \<open>filepath.ToSlash (filepath.Join a b)\<close> and \<open>modPath\<close> for the module path of
  \<open>go.mod\<close>. The scanner sets \<open>Function\<close>, \<open>Deps\<close> and \<open>Module\<close> of a factory; the
  other fields keep Go's zero values. The container is not enumerated here, so it is a
  map.
\<close>

definition new_factory :: "string \<Rightarrow> string \<Rightarrow> Factory" where
  "new_factory func modName =
     \<lparr>Alias = [], Function = func, Deps = [], Module = modName,
      Final = False, Disable = False, File = [], Pos = []\<rparr>"

fun add_factories ::
  "(string \<Rightarrow> string \<Rightarrow> string) \<Rightarrow> string \<Rightarrow> Annotation list \<Rightarrow> (string \<rightharpoonup> Factory)
     \<Rightarrow> scan_error + (string \<rightharpoonup> Factory)" where
  "add_factories Join modPath [] c = Inr c"
| "add_factories Join modPath (FactoryAnnotation path func alias file pos # anns) c =
     (let modName = Join modPath path
      in case c alias of
           Some existing \<Rightarrow>
             if Module existing = path
             then Inl (ErrorString (''Duplicate Alias '' @ alias @ '' in '' @ Module existing))
             else Inl (ErrorString (''Alias '' @ alias @ '' used by '' @ Module existing))
         | None \<Rightarrow> add_factories Join modPath anns (c(alias \<mapsto> new_factory func modName)))"
| "add_factories Join modPath (a # anns) c = add_factories Join modPath anns c"

fun resolve_deps ::
  "(string \<rightharpoonup> Factory) \<Rightarrow> string \<Rightarrow> Factory \<Rightarrow> string list \<Rightarrow> Dependency list
     \<Rightarrow> scan_error + Dependency list" where
  "resolve_deps c target tf [] deps = Inr deps"
| "resolve_deps c target tf (d # ds) deps =
     (let depName = TrimSpace d; standalone = HasPrefix depName ''^''
      in case (if standalone then index (Split depName ''^'') 1 else Inr depName) of
           Inl e \<Rightarrow> Inl e
         | Inr depName' \<Rightarrow>
             if c depName' \<noteq> None
             then resolve_deps c target tf ds (deps @ [\<lparr>Name = depName', Standalone = standalone\<rparr>])
             else Inl (ErrorString (''Can'' @ [CHR 0x27] @ ''t resolve dependency '' @ depName'
                         @ '' of '' @ target @ '' in '' @ Module tf)))"

fun add_wires ::
  "Annotation list \<Rightarrow> (string \<rightharpoonup> Factory) \<Rightarrow> scan_error + (string \<rightharpoonup> Factory)" where
  "add_wires [] c = Inr c"
| "add_wires (WireAnnotation path target wdeps file pos # anns) c =
     (case c target of
        Some tf \<Rightarrow>
          (case resolve_deps c target tf wdeps [] of
             Inl e \<Rightarrow> Inl e
           | Inr deps \<Rightarrow> add_wires anns (c(target \<mapsto> tf\<lparr>Deps := deps\<rparr>)))
      | None \<Rightarrow> add_wires anns c)"
| "add_wires (a # anns) c = add_wires anns c"

definition build_DIConfig ::
  "(string \<Rightarrow> string \<Rightarrow> string) \<Rightarrow> string \<Rightarrow> Annotation list
     \<Rightarrow> scan_error + (string \<rightharpoonup> Factory)" where
  "build_DIConfig Join modPath anns =
     (case add_factories Join modPath anns Map.empty of
        Inl e \<Rightarrow> Inl e
      | Inr c \<Rightarrow> add_wires anns c)"

text \<open>The aliases of the Factory annotations of a list, in order.\<close>

fun factory_aliases :: "Annotation list \<Rightarrow> string list" where
  "factory_aliases [] = []"
| "factory_aliases (FactoryAnnotation path func alias file pos # anns) =
     alias # factory_aliases anns"
| "factory_aliases (a # anns) = factory_aliases anns"

section \<open>The code emitter\<close>

text \<open>
  The part of the \<open>go/ast\<close> tree that \<open>GenerateCode\<close> builds. A \<open>DeclStmt\<close> carries
  the text of its doc comment, the declared name and the value; an \<open>ImportDecl\<close> is the
  list of its specs, each a name and the import path (which the source passes through
  \<open>strconv.Quote\<close>). \<open>GenerateCode\<close> returns the text that \<open>format.Node\<close> prints for
  the tree; here it returns the tree.
\<close>

datatype expr =
  Ident string
| SelectorExpr expr string
| CallExpr expr "expr list"

datatype stmt =
  DeclStmt string string expr
| ExprStmt expr

datatype decl =
  ImportDecl "(string \<times> string) list"
| FuncDecl string "stmt list"

text \<open>
  \<open>GenContext\<close>: \<open>ImportID\<close> is enumerated at the end, so it is an association list
  in the order of insertion; \<open>Container\<close> is only read and written.
\<close>

record GenContext =
  ImportID :: "(string \<times> string) list"
  Container :: "string \<rightharpoonup> string"
  Counter :: int

text \<open>
  \<open>generateDepExpr\<close> calls itself through the dependency lists of the container, so
  the recursion is bounded by fuel: a run ends out of fuel, fails, or returns.
  \<open>Failed NilPointerPanic\<close> is the panic of reading a field of the nil pointer that
  \<open>config.Container\<close> yields for a name that keys no factory.
\<close>

datatype 'a run = OutOfFuel | Failed build_error | Returns 'a

text \<open>Lines 85 to 98: \<open>strconv.Itoa\<close>, \<open>GenUID\<close> and \<open>ResolveImport\<close>.\<close>

definition digit :: "nat \<Rightarrow> char" where
  "digit n = ''0123456789'' ! n"

fun decimal :: "nat \<Rightarrow> string" where
  "decimal n = (if n < 10 then [digit n] else decimal (n div 10) @ [digit (n mod 10)])"

declare decimal.simps [simp del]

definition Itoa :: "int \<Rightarrow> string" where
  "Itoa i = (if i < 0 then ''-'' @ decimal (nat (- i)) else decimal (nat i))"

definition GenUID :: "GenContext \<Rightarrow> string \<times> GenContext" where
  "GenUID c = (let c' = c\<lparr>Counter := Counter c + 1\<rparr> in (''id_'' @ Itoa (Counter c'), c'))"

definition ResolveImport :: "GenContext \<Rightarrow> string \<Rightarrow> string \<times> GenContext" where
  "ResolveImport c module =
     (case map_of (ImportID c) module of
        None \<Rightarrow> (case GenUID c of (uid, c') \<Rightarrow> (uid, c'\<lparr>ImportID := ImportID c' @ [(module, uid)]\<rparr>))
      | Some a \<Rightarrow> (a, c))"

text \<open>
  Lines 101 to 120. \<open>generateArgs\<close> is the loop of lines 107 to 109, and the same loop
  of lines 174 to 176. A name missing from \<open>ctx.Container\<close> reads as the empty string.
\<close>

definition ident_of :: "GenContext \<Rightarrow> string \<Rightarrow> string" where
  "ident_of ctx name = (case Container ctx name of None \<Rightarrow> [] | Some v \<Rightarrow> v)"

fun generateDepExpr ::
    "nat \<Rightarrow> GenContext \<Rightarrow> Dependency \<Rightarrow> (string \<rightharpoonup> Factory) \<Rightarrow> (expr \<times> GenContext) run"
  and generateArgs ::
    "nat \<Rightarrow> GenContext \<Rightarrow> Dependency list \<Rightarrow> (string \<rightharpoonup> Factory) \<Rightarrow> expr list
       \<Rightarrow> (expr list \<times> GenContext) run" where
  "generateDepExpr 0 ctx dep config = OutOfFuel"
| "generateDepExpr (Suc n) ctx dep config =
     (if Standalone dep then
        (case config (Name dep) of
           None \<Rightarrow> Failed NilPointerPanic
         | Some factory \<Rightarrow>
             (case ResolveImport ctx (Module factory) of
                (modAlias, ctx1) \<Rightarrow>
                  (case generateArgs n ctx1 (Deps factory) config [] of
                     OutOfFuel \<Rightarrow> OutOfFuel
                   | Failed e \<Rightarrow> Failed e
                   | Returns (args, ctx2) \<Rightarrow>
                       Returns (CallExpr (SelectorExpr (Ident modAlias) (Function factory)) args,
                                ctx2))))
      else Returns (Ident (ident_of ctx (Name dep)), ctx))"
| "generateArgs n ctx [] config args = Returns (args, ctx)"
| "generateArgs n ctx (sub # subs) config args =
     (case generateDepExpr n ctx sub config of
        OutOfFuel \<Rightarrow> OutOfFuel
      | Failed e \<Rightarrow> Failed e
      | Returns (e, ctx') \<Rightarrow> generateArgs n ctx' subs config (args @ [e]))"

text \<open>
  Lines 124 to 139. \<open>ToSlash\<close> and \<open>Rel\<close> stand for the functions of
  \<open>path/filepath\<close> (\<open>Rel\<close> yields \<open>None\<close> for an error).
\<close>

definition TrimPrefix :: "string \<Rightarrow> string \<Rightarrow> string" where
  "TrimPrefix s p = (if HasPrefix s p then drop (length p) s else s)"

definition sanitizeModulePath ::
  "(string \<Rightarrow> string) \<Rightarrow> (string \<Rightarrow> string \<Rightarrow> string option) \<Rightarrow> string \<Rightarrow> string \<Rightarrow> string
     \<Rightarrow> string" where
  "sanitizeModulePath ToSlash Rel absPath root moduleName =
     (case Rel (ToSlash root) (ToSlash absPath) of
        None \<Rightarrow> moduleName
      | Some rel \<Rightarrow>
          (let rel' = TrimPrefix (ToSlash rel) ''./''
           in if rel' = ''.'' then moduleName else moduleName @ ''/'' @ rel'))"

text \<open>
  Lines 143 to 271. \<open>emit\<close> is the loop over the order (lines 168 to 217).
  \<open>ns\<close> is the order in which \<open>range indegree\<close> yields its keys, and \<open>ms\<close> the order
  in which \<open>range ctx.ImportID\<close> yields the module paths; the container itself comes in
  the order of \<open>range container\<close>.
\<close>

definition line_directive :: "Factory \<Rightarrow> string" where
  "line_directive factory = [CHR 0x0A] @ ''//line '' @ File factory @ '' '' @ Pos factory"

fun emit ::
  "nat \<Rightarrow> (string \<rightharpoonup> Factory) \<Rightarrow> string list \<Rightarrow> GenContext \<Rightarrow> stmt list \<Rightarrow> expr list
     \<Rightarrow> (stmt list \<times> expr list \<times> GenContext) run" where
  "emit fuel config [] ctx stmts depIdents = Returns (stmts, depIdents, ctx)"
| "emit fuel config (item # rest) ctx stmts depIdents =
     (case config item of
        None \<Rightarrow> Failed NilPointerPanic
      | Some factory \<Rightarrow>
          (let id = Alias factory;
               ctx0 = ctx\<lparr>Container := (Container ctx)(item \<mapsto> id)\<rparr>
           in case generateArgs fuel ctx0 (Deps factory) config [] of
                OutOfFuel \<Rightarrow> OutOfFuel
              | Failed e \<Rightarrow> Failed e
              | Returns (args, ctx1) \<Rightarrow>
                  (case ResolveImport ctx1 (Module factory) of
                     (modAlias, ctx2) \<Rightarrow>
                       emit fuel config rest ctx2
                         (stmts @ [DeclStmt (line_directive factory) id
                                     (CallExpr (SelectorExpr (Ident modAlias) (Function factory)) args)])
                         (depIdents @ [Ident id]))))"

definition normalize_modules ::
  "(string \<Rightarrow> string) \<Rightarrow> (string \<Rightarrow> string \<Rightarrow> string option) \<Rightarrow> string \<Rightarrow> string \<Rightarrow> container
     \<Rightarrow> container" where
  "normalize_modules ToSlash Rel root moduleName config =
     map (\<lambda>(alias, f). (alias, f\<lparr>Module := sanitizeModulePath ToSlash Rel (Module f) root moduleName\<rparr>))
       config"

definition import_alias :: "GenContext \<Rightarrow> string \<Rightarrow> string" where
  "import_alias ctx module = (case map_of (ImportID ctx) module of None \<Rightarrow> [] | Some a \<Rightarrow> a)"

definition GenerateCode ::
  "(string \<Rightarrow> string) \<Rightarrow> (string \<Rightarrow> string \<Rightarrow> string option) \<Rightarrow> nat \<Rightarrow> string list
     \<Rightarrow> (GenContext \<Rightarrow> string list) \<Rightarrow> string \<Rightarrow> string \<Rightarrow> container \<Rightarrow> decl list run" where
  "GenerateCode ToSlash Rel fuel ns ms root moduleName config =
     (case BuildOrder config ns of
        Inl err \<Rightarrow> Failed err
      | Inr order \<Rightarrow>
          (case emit fuel (map_of (normalize_modules ToSlash Rel root moduleName config)) order
                  \<lparr>ImportID = [], Container = Map.empty, Counter = 0\<rparr> [] [] of
             OutOfFuel \<Rightarrow> OutOfFuel
           | Failed e \<Rightarrow> Failed e
           | Returns (stmts, depIdents, ctx) \<Rightarrow>
               (let stmts' = (if depIdents \<noteq> []
                              then stmts @ [ExprStmt (CallExpr (SelectorExpr (Ident ''dix'') ''Mark'')
                                                        depIdents)]
                              else stmts);
                    rootFn = FuncDecl ''Root'' stmts'
                in Returns
                     (if ImportID ctx \<noteq> []
                      then [ImportDecl ((''dix'', ''github.com/smtdfc/dix'')
                                         # map (\<lambda>m. (import_alias ctx m, m)) (ms ctx)),
                            rootFn]
                      else [rootFn]))))"

text \<open>
  What the claims say about the emitted code. \<open>renders\<close> is the rendering of one
  dependency: a reference to the identifier of its alias, or an inline call of its
  factory's constructor whose arguments are the renderings of that factory's own
  dependencies. \<open>declares\<close> is the declaration of one alias. \<open>root_body\<close> is the body
  of the emitted function, \<open>decl_names\<close> the names its statements declare, and
  \<open>keep_alive\<close> the call of lines 219 to 228.
\<close>

inductive renders ::
  "(string \<rightharpoonup> Factory) \<Rightarrow> (string \<rightharpoonup> string) \<Rightarrow> Dependency \<Rightarrow> expr \<Rightarrow> bool"
  for config imps where
  reuse:
    "\<not> Standalone dep \<Longrightarrow> config (Name dep) = Some f \<Longrightarrow>
       renders config imps dep (Ident (Alias f))"
| inline:
    "Standalone dep \<Longrightarrow> config (Name dep) = Some f \<Longrightarrow> imps (Module f) = Some modAlias \<Longrightarrow>
       list_all2 (renders config imps) (Deps f) args \<Longrightarrow>
       renders config imps dep (CallExpr (SelectorExpr (Ident modAlias) (Function f)) args)"

definition alias_of :: "(string \<rightharpoonup> Factory) \<Rightarrow> string \<Rightarrow> string" where
  "alias_of config a = (case config a of None \<Rightarrow> [] | Some f \<Rightarrow> Alias f)"

definition declares ::
  "(string \<rightharpoonup> Factory) \<Rightarrow> (string \<rightharpoonup> string) \<Rightarrow> string \<Rightarrow> stmt \<Rightarrow> bool" where
  "declares config imps item st =
     (\<exists>f modAlias args. config item = Some f \<and> imps (Module f) = Some modAlias
        \<and> list_all2 (renders config imps) (Deps f) args
        \<and> st = DeclStmt (line_directive f) (Alias f)
                 (CallExpr (SelectorExpr (Ident modAlias) (Function f)) args))"

fun root_body :: "decl list \<Rightarrow> stmt list" where
  "root_body [] = []"
| "root_body (FuncDecl name body # ds) = body"
| "root_body (ImportDecl specs # ds) = root_body ds"

fun decl_names :: "stmt list \<Rightarrow> string list" where
  "decl_names [] = []"
| "decl_names (DeclStmt doc name val # ss) = name # decl_names ss"
| "decl_names (ExprStmt e # ss) = decl_names ss"

definition keep_alive :: "(string \<rightharpoonup> Factory) \<Rightarrow> string list \<Rightarrow> stmt list" where
  "keep_alive config order =
     (if order = [] then []
      else [ExprStmt (CallExpr (SelectorExpr (Ident ''dix'') ''Mark'')
                        (map (\<lambda>a. Ident (alias_of config a)) order))])"



text \<open>
  For the proofs: the outcome of a run that did not run out of fuel, for a dependency, a
  dependency list and the loop over the order; a set of aliases that is declared already
  (\<open>agree\<close>) and contains the dependencies of its members (\<open>dep_closed\<close>); an order
  whose every alias comes after its dependencies (\<open>topo_from\<close>).
\<close>

definition agree :: "(string \<rightharpoonup> Factory) \<Rightarrow> GenContext \<Rightarrow> string set \<Rightarrow> bool" where
  "agree config ctx S =
     (\<forall>a \<in> S. \<exists>f. config a = Some f \<and> Container ctx a = Some (Alias f))"

definition dep_closed :: "(string \<rightharpoonup> Factory) \<Rightarrow> string set \<Rightarrow> bool" where
  "dep_closed config S = (\<forall>a \<in> S. set (deps_of config a) \<subseteq> S)"

definition dep_ok ::
  "(string \<rightharpoonup> Factory) \<Rightarrow> GenContext \<Rightarrow> Dependency \<Rightarrow> (expr \<times> GenContext) run \<Rightarrow> bool" where
  "dep_ok config ctx dep r =
     (case r of
        OutOfFuel \<Rightarrow> True
      | Failed e \<Rightarrow> False
      | Returns (e, ctx') \<Rightarrow>
          renders config (map_of (ImportID ctx')) dep e
          \<and> map_of (ImportID ctx) \<subseteq>\<^sub>m map_of (ImportID ctx')
          \<and> Container ctx' = Container ctx)"

definition args_ok ::
  "(string \<rightharpoonup> Factory) \<Rightarrow> GenContext \<Rightarrow> Dependency list \<Rightarrow> expr list
     \<Rightarrow> (expr list \<times> GenContext) run \<Rightarrow> bool" where
  "args_ok config ctx subs args r =
     (case r of
        OutOfFuel \<Rightarrow> True
      | Failed e \<Rightarrow> False
      | Returns (args', ctx') \<Rightarrow>
          (\<exists>new. args' = args @ new
             \<and> list_all2 (renders config (map_of (ImportID ctx'))) subs new)
          \<and> map_of (ImportID ctx) \<subseteq>\<^sub>m map_of (ImportID ctx')
          \<and> Container ctx' = Container ctx)"

fun topo_from :: "(string \<rightharpoonup> Factory) \<Rightarrow> string set \<Rightarrow> string list \<Rightarrow> bool" where
  "topo_from config S [] = True"
| "topo_from config S (a # rest) =
     (set (deps_of config a) \<subseteq> S \<and> topo_from config (insert a S) rest)"

definition emit_ok ::
  "(string \<rightharpoonup> Factory) \<Rightarrow> GenContext \<Rightarrow> string list \<Rightarrow> stmt list \<Rightarrow> expr list
     \<Rightarrow> (stmt list \<times> expr list \<times> GenContext) run \<Rightarrow> bool" where
  "emit_ok config ctx items stmts ids r =
     (case r of
        OutOfFuel \<Rightarrow> True
      | Failed e \<Rightarrow> False
      | Returns (stmts', ids', ctx') \<Rightarrow>
          (\<exists>new. stmts' = stmts @ new
             \<and> list_all2 (declares config (map_of (ImportID ctx'))) items new)
          \<and> ids' = ids @ map (\<lambda>a. Ident (alias_of config a)) items
          \<and> map_of (ImportID ctx) \<subseteq>\<^sub>m map_of (ImportID ctx'))"

section \<open>Concrete containers\<close>

text \<open>A factory and a dependency written out in full, for the concrete inputs below.\<close>

definition a_factory :: "string \<Rightarrow> Dependency list \<Rightarrow> bool \<Rightarrow> bool \<Rightarrow> Factory" where
  "a_factory a ds fin dis =
     \<lparr>Alias = a, Function = ''New'' @ a, Deps = ds, Module = ''/src/'' @ a,
      Final = fin, Disable = dis, File = a @ ''.go'', Pos = ''3''\<rparr>"

definition shared :: "string \<Rightarrow> Dependency" where
  "shared n = \<lparr>Name = n, Standalone = False\<rparr>"

definition fresh :: "string \<Rightarrow> Dependency" where
  "fresh n = \<lparr>Name = n, Standalone = True\<rparr>"

definition final_log :: container where
  "final_log =
     [(''db'', a_factory ''db'' [] False False),
      (''log'', a_factory ''log'' [] True False),
      (''cache'', a_factory ''cache'' [shared ''db''] False False)]"

definition wiring :: container where
  "wiring =
     [(''db'', a_factory ''db'' [] False False),
      (''cache'', a_factory ''cache'' [shared ''db''] False False),
      (''server'', a_factory ''server'' [shared ''db'', fresh ''cache''] False False)]"

definition final_db :: container where
  "final_db =
     [(''db'', a_factory ''db'' [] True False),
      (''cache'', a_factory ''cache'' [shared ''db''] False False)]"

definition cycle_ab :: container where
  "cycle_ab =
     [(''a'', a_factory ''a'' [shared ''b''] False False),
      (''b'', a_factory ''b'' [shared ''a''] False False)]"

definition dangling_cycle :: container where
  "dangling_cycle =
     [(''a'', a_factory ''a'' [shared ''b''] False False),
      (''b'', a_factory ''b'' [shared ''a'', shared ''z''] False False)]"

definition dangling_final :: container where
  "dangling_final =
     [(''a'', a_factory ''a'' [shared ''z'', shared ''log''] False False),
      (''log'', a_factory ''log'' [] True False)]"

definition join_slash :: "string \<Rightarrow> string \<Rightarrow> string" where
  "join_slash a b = a @ ''/'' @ b"

definition meta :: "string \<Rightarrow> string \<Rightarrow> AnnotationMetadata" where
  "meta k v = \<lparr>Key = k, Value = v, File_md = ''store/db.go'', Line = 7, Path = ''store'',
     Pos_md = []\<rparr>"

definition two_dbs :: "Annotation list" where
  "two_dbs =
     [FactoryAnnotation ''store'' ''NewDB'' ''db'' [] [],
      FactoryAnnotation ''cache'' ''NewMemDB'' ''db'' [] []]"

definition stray_wire :: "Annotation list" where
  "stray_wire =
     [FactoryAnnotation ''store'' ''NewDB'' ''db'' [] [],
      WireAnnotation ''web'' ''server'' [''db''] [] [],
      FactoryAnnotation ''cache'' ''NewCache'' ''cache'' [] [],
      WireAnnotation ''cache'' ''cache'' [''^db''] [] []]"

definition slash_id :: "string \<Rightarrow> string" where "slash_id s = s"

definition rel_strip :: "string \<Rightarrow> string \<Rightarrow> string option" where
  "rel_strip root p =
     (if root = p then Some ''.''
      else if HasPrefix p (root @ ''/'') then Some (drop (length root + 1) p) else None)"

definition insertion_order :: "GenContext \<Rightarrow> string list" where
  "insertion_order ctx = map fst (ImportID ctx)"



section \<open>The final partition\<close>

lemma split_finals_filter:
  "split_finals (map_of kvs) xs normal finals = Inr ord \<Longrightarrow>
     ord = (normal @ filter (\<lambda>a. \<not> is_final kvs a) xs) @ (finals @ filter (is_final kvs) xs)"
proof (induction xs arbitrary: normal finals)
  case Nil
  then show ?case by simp
next
  case (Cons a xs)
  from Cons.prems obtain f where f: "map_of kvs a = Some f"
    by (auto split: option.splits)
  show ?case
  proof (cases "Final f")
    case True
    with f Cons.prems have "split_finals (map_of kvs) xs normal (finals @ [a]) = Inr ord"
      by simp
    from Cons.IH [OF this] True f show ?thesis by (simp add: is_final_def)
  next
    case False
    with f Cons.prems have "split_finals (map_of kvs) xs (normal @ [a]) finals = Inr ord"
      by simp
    from Cons.IH [OF this] False f show ?thesis by (simp add: is_final_def)
  qed
qed

lemma partition_suffix:
  "i < length (filter (\<lambda>a. \<not> P a) xs @ filter P xs) \<Longrightarrow>
     P ((filter (\<lambda>a. \<not> P a) xs @ filter P xs) ! i) \<longleftrightarrow> length (filter (\<lambda>a. \<not> P a) xs) \<le> i"
proof (cases "i < length (filter (\<lambda>a. \<not> P a) xs)")
  case True
  then have "(filter (\<lambda>a. \<not> P a) xs) ! i \<in> set (filter (\<lambda>a. \<not> P a) xs)"
    by (rule nth_mem)
  with True show ?thesis by (simp add: nth_append)
next
  case False
  assume "i < length (filter (\<lambda>a. \<not> P a) xs @ filter P xs)"
  with False have "i - length (filter (\<lambda>a. \<not> P a) xs) < length (filter P xs)"
    by simp
  then have "(filter P xs) ! (i - length (filter (\<lambda>a. \<not> P a) xs)) \<in> set (filter P xs)"
    by (rule nth_mem)
  with False show ?thesis by (simp add: nth_append)
qed

section \<open>The keys of \<open>indegree\<close>\<close>

text \<open>
  After the first loop \<open>indegree\<close> has the keys of the container, each once: this is
  what \<open>enumerates\<close> asks of the order \<open>ns\<close> in which \<open>range indegree\<close> yields them.
\<close>

lemma keys_put:
  "map fst (put k v m) = (if k \<in> fst ` set m then map fst m else map fst m @ [k])"
  by (induction m) force+

lemma add_edges_keys:
  "add_edges c a deps (ind, g) = Inr (ind', g') \<Longrightarrow> a \<in> set (map fst ind)
     \<Longrightarrow> map fst ind' = map fst ind"
proof (induction deps arbitrary: ind g)
  case Nil
  then show ?case by simp
next
  case (Cons dep deps)
  from Cons.prems(1) have
    "add_edges c a deps (put a (deg ind a + 1) ind, g(Name dep := g (Name dep) @ [a])) = Inr (ind', g')"
    by (auto split: option.splits if_splits)
  moreover have k: "map fst (put a (deg ind a + 1) ind) = map fst ind"
    using Cons.prems(2) by (simp add: keys_put)
  ultimately show ?case using Cons.IH Cons.prems(2) by metis
qed

lemma build_graph_keys:
  "build_graph c kvs (ind, g) = Inr (ind', g') \<Longrightarrow> distinct (map fst ind)
     \<Longrightarrow> distinct (map fst ind') \<and> set (map fst ind') = set (map fst ind) \<union> set (map fst kvs)"
proof (induction kvs arbitrary: ind g)
  case Nil
  then show ?case by simp
next
  case (Cons kv kvs)
  obtain a f where kv: "kv = (a, f)" by (cases kv)
  let ?ind0 = "if map_of ind a = None then put a 0 ind else ind"
  from Cons.prems(1) obtain ind1 g1 where
    e: "add_edges c a (Deps f) (?ind0, g) = Inr (ind1, g1)"
    and b: "build_graph c kvs (ind1, g1) = Inr (ind', g')"
    unfolding kv by (auto split: sum.splits)
  have k0: "map fst ?ind0 = (if a \<in> fst ` set ind then map fst ind else map fst ind @ [a])"
    by (simp add: keys_put map_of_eq_None_iff)
  then have a0: "a \<in> set (map fst ?ind0)" by (simp split: if_splits)
  from add_edges_keys [OF e a0] have k1: "map fst ind1 = map fst ?ind0" .
  have d1: "distinct (map fst ind1)" unfolding k1 k0 using Cons.prems(2) by simp
  have s1: "set (map fst ind1) = insert a (set (map fst ind))" unfolding k1 k0 by auto
  from Cons.IH [OF b d1] s1 show ?case unfolding kv by auto
qed

lemma indegree_keys:
  "build_graph c kvs ([], g) = Inr (ind, g') \<Longrightarrow>
     distinct (map fst ind) \<and> set (map fst ind) = set (map fst kvs)"
  using build_graph_keys [of c kvs "[]" g ind g'] by simp

section \<open>The queue-draining loop: Kahn's algorithm and its invariant\<close>

lemma add_edges_Inr:
  "add_edges c a deps (ind, g) = Inr (ind', g') \<Longrightarrow>
     list_all (usable c) deps
     \<and> (\<forall>k. deg ind' k = deg ind k + (if k = a then int (length deps) else 0))
     \<and> (\<forall>d k. count_list (g' d) k =
            count_list (g d) k + (if k = a then count_list (map Name deps) d else 0))"
proof (induction deps arbitrary: ind g)
  case Nil
  then show ?case by simp
next
  case (Cons dep deps)
  from Cons.prems obtain df where df: "c (Name dep) = Some df" "\<not> Final df" "\<not> Disable df"
    by (auto split: option.splits if_splits)
  with Cons.prems have
    "add_edges c a deps (put a (deg ind a + 1) ind, g(Name dep := g (Name dep) @ [a])) = Inr (ind', g')"
    by simp
  from Cons.IH [OF this] df show ?case
    by (auto simp: usable_def deg_put)
qed

lemma add_edges_usable:
  "list_all (usable c) deps \<Longrightarrow> \<exists>s'. add_edges c a deps s = Inr s'"
proof (induction deps arbitrary: s)
  case Nil
  then show ?case by simp
next
  case (Cons dep deps)
  obtain ind g where s: "s = (ind, g)" by (cases s)
  from Cons.prems obtain df where df: "c (Name dep) = Some df" "\<not> Final df" "\<not> Disable df"
    by (auto simp: usable_def split: option.splits)
  from Cons.prems have "list_all (usable c) deps" by simp
  from Cons.IH [OF this] df show ?case unfolding s by simp
qed

lemma build_graph_Inr:
  "build_graph c kvs (ind, g) = Inr (ind', g') \<Longrightarrow>
     list_all (\<lambda>(a, f). list_all (usable c) (Deps f)) kvs
     \<and> (\<forall>k. deg ind' k = deg ind k
            + (\<Sum>(a, f)\<leftarrow>kvs. if a = k then int (length (Deps f)) else 0))
     \<and> (\<forall>d k. count_list (g' d) k = count_list (g d) k
            + (\<Sum>(a, f)\<leftarrow>kvs. if a = k then count_list (dep_names f) d else 0))"
proof (induction kvs arbitrary: ind g)
  case Nil
  then show ?case by simp
next
  case (Cons kv kvs)
  obtain a f where kv: "kv = (a, f)" by (cases kv)
  let ?ind0 = "if map_of ind a = None then put a 0 ind else ind"
  have ind0: "deg ?ind0 k = deg ind k" for k
    by (auto simp: deg_put) (simp add: deg_def)
  from Cons.prems obtain ind1 g1 where
    e: "add_edges c a (Deps f) (?ind0, g) = Inr (ind1, g1)"
    and b: "build_graph c kvs (ind1, g1) = Inr (ind', g')"
    unfolding kv by (auto split: sum.splits)
  from add_edges_Inr [OF e] Cons.IH [OF b] show ?case
    unfolding kv by (simp add: ind0 dep_names_def)
qed

lemma build_graph_usable:
  "list_all (\<lambda>(a, f). list_all (usable c) (Deps f)) kvs \<Longrightarrow> \<exists>s'. build_graph c kvs s = Inr s'"
proof (induction kvs arbitrary: s)
  case Nil
  then show ?case by simp
next
  case (Cons kv kvs)
  obtain a f where kv: "kv = (a, f)" by (cases kv)
  obtain ind g where s: "s = (ind, g)" by (cases s)
  from Cons.prems have "list_all (usable c) (Deps f)" unfolding kv by simp
  from add_edges_usable [OF this] obtain s1 where
    "add_edges c a (Deps f) (if map_of ind a = None then put a 0 ind else ind, g) = Inr s1"
    by blast
  moreover from Cons.prems have "list_all (\<lambda>(a, f). list_all (usable c) (Deps f)) kvs"
    by simp
  from Cons.IH [OF this] obtain s2 where "build_graph c kvs s1 = Inr s2" by blast
  ultimately show ?case unfolding kv s by simp
qed

lemma sum_list_distinct_key:
  "distinct (map fst kvs) \<Longrightarrow>
     (\<Sum>(a, f)\<leftarrow>kvs. if a = k then F f else 0) =
       (case map_of kvs k of None \<Rightarrow> (0::'a::comm_monoid_add) | Some f \<Rightarrow> F f)"
proof (induction kvs)
  case Nil
  then show ?case by simp
next
  case (Cons kv kvs)
  obtain a f where kv: "kv = (a, f)" by (cases kv)
  show ?case
  proof (cases "a = k")
    case True
    with Cons.prems have "map_of kvs k = None" unfolding kv
      by (simp add: map_of_eq_None_iff)
    with Cons True show ?thesis unfolding kv by simp
  next
    case False
    with Cons show ?thesis unfolding kv by simp
  qed
qed

lemma relax_effect:
  "relax xs ind q = (ind', q') \<Longrightarrow>
     (\<forall>a. deg ind' a = deg ind a - int (count_list xs a))
     \<and> (\<exists>qs. q' = q @ qs \<and> distinct qs
           \<and> (\<forall>a. a \<in> set qs \<longleftrightarrow> 1 \<le> deg ind a \<and> deg ind a \<le> int (count_list xs a)))"
proof (induction xs arbitrary: ind q)
  case Nil
  then show ?case by simp
next
  case (Cons x xs)
  define i where "i = put x (deg ind x - 1) ind"
  define q1 where "q1 = (if deg ind x = 1 then q @ [x] else q)"
  have degi: "deg i a = (if a = x then deg ind x - 1 else deg ind a)" for a
    unfolding i_def by (rule deg_put)
  have "relax (x # xs) ind q = relax xs i q1"
    unfolding i_def q1_def by (simp add: Let_def deg_put)
  with Cons.prems have r: "relax xs i q1 = (ind', q')" by simp
  from Cons.IH [OF r] obtain qs where
    d: "\<And>a. deg ind' a = deg i a - int (count_list xs a)"
    and q': "q' = q1 @ qs" and dist: "distinct qs"
    and qs: "\<And>a. a \<in> set qs \<longleftrightarrow> 1 \<le> deg i a \<and> deg i a \<le> int (count_list xs a)"
    by blast
  have 1: "deg ind' a = deg ind a - int (count_list (x # xs) a)" for a
    using d [of a] degi [of a] by simp
  show ?case
  proof (cases "deg ind x = 1")
    case True
    have "x \<notin> set qs" using qs [of x] degi [of x] True by simp
    then have dist': "distinct (x # qs)" using dist by simp
    have q'': "q' = q @ (x # qs)" using q' True by (simp add: q1_def)
    have "a \<in> set (x # qs) \<longleftrightarrow> 1 \<le> deg ind a \<and> deg ind a \<le> int (count_list (x # xs) a)" for a
    proof (cases "a = x")
      case True
      with \<open>deg ind x = 1\<close> show ?thesis by simp
    next
      case False
      with qs [of a] degi [of a] show ?thesis by simp
    qed
    with 1 dist' q'' show ?thesis by blast
  next
    case False
    have q'': "q' = q @ qs" using q' False by (simp add: q1_def)
    have "a \<in> set qs \<longleftrightarrow> 1 \<le> deg ind a \<and> deg ind a \<le> int (count_list (x # xs) a)" for a
    proof (cases "a = x")
      case True
      with qs [of x] degi [of x] False show ?thesis by simp linarith
    next
      case False
      with qs [of a] degi [of a] show ?thesis by simp
    qed
    with 1 dist q'' show ?thesis by blast
  qed
qed

lemma before_append: "before xs d a \<Longrightarrow> before (xs @ ys) d a"
  unfolding before_def by fastforce

lemma before_snoc: "d \<in> set xs \<Longrightarrow> before (xs @ [a]) d a"
  unfolding before_def by fastforce

lemma before_across: "d \<in> set xs \<Longrightarrow> a \<in> set ys \<Longrightarrow> before (xs @ ys) d a"
proof -
  assume d: "d \<in> set xs" and "a \<in> set ys"
  then obtain us vs where "ys = us @ a # vs" by (meson split_list)
  then have "xs @ ys = (xs @ us) @ a # vs" by simp
  moreover have "d \<in> set (xs @ us)" using d by simp
  ultimately show ?thesis unfolding before_def by blast
qed

lemma before_filter: "before xs d a \<Longrightarrow> P d \<Longrightarrow> P a \<Longrightarrow> before (filter P xs) d a"
proof -
  assume "before xs d a" and P: "P d" "P a"
  then obtain us vs where xs: "xs = us @ a # vs" and d: "d \<in> set us"
    unfolding before_def by blast
  have "filter P xs = filter P us @ a # filter P vs" using xs P by simp
  moreover have "d \<in> set (filter P us)" using d P by simp
  ultimately show ?thesis unfolding before_def by blast
qed

lemma before_set: "before xs d a \<Longrightarrow> d \<in> set xs \<and> a \<in> set xs"
  unfolding before_def by auto

lemma takeWhile_fresh: "a \<notin> set us \<Longrightarrow> takeWhile (\<lambda>y. y \<noteq> a) (us @ a # vs) = us"
  by (induction us) auto

lemma before_position:
  "before xs d a \<Longrightarrow> distinct xs \<Longrightarrow> position xs d < position xs a"
proof -
  assume "before xs d a" and dist: "distinct xs"
  then obtain us vs where xs: "xs = us @ a # vs" and d: "d \<in> set us"
    unfolding before_def by blast
  from dist xs have "a \<notin> set us" by auto
  then have "takeWhile (\<lambda>y. y \<noteq> a) xs = us" unfolding xs
    by (rule takeWhile_fresh)
  then have a: "position xs a = length us" by (simp add: position_def)
  from d have "takeWhile (\<lambda>y. y \<noteq> d) xs = takeWhile (\<lambda>y. y \<noteq> d) us" unfolding xs
    by (simp add: takeWhile_append1)
  moreover have "length (takeWhile (\<lambda>y. y \<noteq> d) us) < length us"
    using d by (induction us) auto
  ultimately show ?thesis using a by (simp add: position_def)
qed

lemma length_filter_drop:
  "length (filter (\<lambda>d. P d \<and> d \<noteq> n) xs) + count_list (filter P xs) n = length (filter P xs)"
  by (induction xs) auto

lemma count_list_filter_keep: "P n \<Longrightarrow> count_list (filter P xs) n = count_list xs n"
  by (induction xs) auto

lemma remaining_snoc:
  assumes "node \<notin> set ord"
  shows "int (length (filter (\<lambda>d. d \<notin> set (ord @ [node])) xs)) =
           int (length (filter (\<lambda>d. d \<notin> set ord) xs)) - int (count_list xs node)"
proof -
  have "filter (\<lambda>d. d \<notin> set (ord @ [node])) xs = filter (\<lambda>d. d \<notin> set ord \<and> d \<noteq> node) xs"
    by (rule filter_cong) auto
  moreover have "count_list (filter (\<lambda>d. d \<notin> set ord) xs) node = count_list xs node"
    using assms by (simp add: count_list_filter_keep)
  ultimately show ?thesis
    using length_filter_drop [of "\<lambda>d. d \<notin> set ord" node xs] by simp
qed

lemma kahn_inv_step:
  assumes g: "graph_of c g"
    and inv: "kahn_inv c (node # q) ind ord"
    and r: "relax (g node) ind q = (ind', q')"
  shows "kahn_inv c q' ind' (ord @ [node])"
proof -
  from inv have dist: "distinct (ord @ node # q)"
    and sub: "set (ord @ node # q) \<subseteq> dom c"
    and rem: "\<And>a. deg ind a = int (length (filter (\<lambda>d. d \<notin> set ord) (deps_of c a)))"
    and zero: "\<And>a. a \<in> dom c \<Longrightarrow> a \<in> set (ord @ node # q) \<longleftrightarrow> deg ind a = 0"
    and topo: "\<And>a d. a \<in> set ord \<Longrightarrow> d \<in> set (deps_of c a) \<Longrightarrow> before ord d a"
    unfolding kahn_inv_def by blast+
  from relax_effect [OF r] obtain qs where
    d: "\<And>a. deg ind' a = deg ind a - int (count_list (g node) a)"
    and q': "q' = q @ qs" and dqs: "distinct qs"
    and qs: "\<And>a. a \<in> set qs \<longleftrightarrow> 1 \<le> deg ind a \<and> deg ind a \<le> int (count_list (g node) a)"
    by blast
  have cnt: "count_list (g node) a = count_list (deps_of c a) node" for a
    using g unfolding graph_of_def by blast
  from dist have fresh: "node \<notin> set ord" by simp
  have rem': "deg ind' a = int (length (filter (\<lambda>d. d \<notin> set (ord @ [node])) (deps_of c a)))" for a
    using d [of a] rem [of a] cnt [of a] remaining_snoc [OF fresh, of "deps_of c a"] by simp
  have nonneg: "0 \<le> deg ind' a" for a using rem' [of a] by simp
  have qs_dom: "a \<in> dom c" if "a \<in> set qs" for a
  proof -
    from that qs [of a] have "0 < count_list (deps_of c a) node" using cnt [of a] by simp
    then have "deps_of c a \<noteq> []" by auto
    then show ?thesis by (auto simp: deps_of_def split: option.splits)
  qed
  have qs_new: "a \<notin> set (ord @ node # q)" if "a \<in> set qs" for a
    using zero [OF qs_dom [OF that]] qs [of a] that by auto
  have dist': "distinct ((ord @ [node]) @ q')"
    using dist dqs qs_new unfolding q' by auto
  have sub': "set ((ord @ [node]) @ q') \<subseteq> dom c"
    using sub qs_dom unfolding q' by auto
  have zero': "a \<in> set ((ord @ [node]) @ q') \<longleftrightarrow> deg ind' a = 0" if a: "a \<in> dom c" for a
  proof
    assume "a \<in> set ((ord @ [node]) @ q')"
    then consider "a \<in> set (ord @ node # q)" | "a \<in> set qs" unfolding q' by auto
    then show "deg ind' a = 0"
    proof cases
      case 1
      with zero [OF a] have "deg ind a = 0" by simp
      with d [of a] nonneg [of a] show ?thesis by simp
    next
      case 2
      with qs [of a] d [of a] nonneg [of a] show ?thesis by simp
    qed
  next
    assume z: "deg ind' a = 0"
    show "a \<in> set ((ord @ [node]) @ q')"
    proof (cases "deg ind a = 0")
      case True
      with zero [OF a] show ?thesis unfolding q' by auto
    next
      case False
      moreover have "0 \<le> deg ind a" using rem [of a] by simp
      ultimately have "1 \<le> deg ind a" by linarith
      with z d [of a] qs [of a] have "a \<in> set qs" by simp
      then show ?thesis unfolding q' by simp
    qed
  qed
  have topo': "before (ord @ [node]) d a"
    if "a \<in> set (ord @ [node])" "d \<in> set (deps_of c a)" for a d
  proof (cases "a \<in> set ord")
    case True
    from topo [OF True that(2)] show ?thesis by (rule before_append)
  next
    case False
    with that have a: "a = node" by simp
    have "node \<in> dom c" using sub by simp
    from zero [OF this] have "deg ind node = 0" by simp
    with rem [of node] have "filter (\<lambda>d. d \<notin> set ord) (deps_of c node) = []" by simp
    with that(2) have "d \<in> set ord" unfolding a by (auto simp: filter_empty_conv)
    then show ?thesis unfolding a by (rule before_snoc)
  qed
  show ?thesis
    unfolding kahn_inv_def using dist' sub' rem' zero' topo' by blast
qed

lemma kahn_inv_drain:
  "graph_of c g \<Longrightarrow> kahn_inv c q ind ord \<Longrightarrow> \<exists>ind'. kahn_inv c [] ind' (drain g q ind ord)"
proof (induction g q ind ord rule: drain.induct)
  case (1 g ind order)
  then show ?case by auto
next
  case (2 g node queue ind order)
  obtain ind' queue' where r: "relax (g node) ind queue = (ind', queue')"
    by (cases "relax (g node) ind queue")
  from kahn_inv_step [OF "2.prems"(1) "2.prems"(2) r]
  have "kahn_inv c queue' ind' (order @ [node])" .
  from "2.IH" [OF r [symmetric] "2.prems"(1) this] r show ?case by simp
qed

lemma deps_of_Some:
  "d \<in> set (deps_of c a) \<Longrightarrow> \<exists>f. c a = Some f \<and> d \<in> set (dep_names f)"
  by (cases "c a") (simp_all add: deps_of_def)

lemma deps_of_dom: "d \<in> set (deps_of c a) \<Longrightarrow> a \<in> dom c"
  using deps_of_Some by fastforce

lemma usable_deps_dom:
  assumes "usable_deps kvs" and "d \<in> set (deps_of (map_of kvs) a)"
  shows "\<exists>df. map_of kvs d = Some df \<and> \<not> Final df \<and> \<not> Disable df"
proof -
  from deps_of_Some [OF assms(2)]
  obtain f where f: "map_of kvs a = Some f" and d: "d \<in> set (dep_names f)"
    by blast
  from f have "(a, f) \<in> set kvs" by (rule map_of_SomeD)
  with assms(1) have "list_all (usable (map_of kvs)) (Deps f)"
    unfolding usable_deps_def by (auto simp: list_all_iff)
  moreover from d obtain dep where "dep \<in> set (Deps f)" "d = Name dep"
    by (auto simp: dep_names_def)
  ultimately have "usable (map_of kvs) dep" by (simp add: list_all_iff)
  with \<open>d = Name dep\<close> show ?thesis by (auto simp: usable_def split: option.splits)
qed

lemma kahn_order_Inr:
  assumes keys: "distinct (map fst kvs)" and ns: "enumerates ns kvs"
    and ko: "kahn_order kvs ns = Inr ko"
  shows "usable_deps kvs \<and> (\<exists>ind. kahn_inv (map_of kvs) [] ind ko)"
proof -
  let ?c = "map_of kvs"
  from ko obtain ind g where
    b: "build_graph ?c kvs ([], \<lambda>_. []) = Inr (ind, g)"
    and ko': "ko = drain g (filter (\<lambda>n. deg ind n = 0) ns) ind []"
    by (auto simp: kahn_order_def split: sum.splits)
  from build_graph_Inr [OF b] have
    u: "usable_deps kvs"
    and d: "\<And>k. deg ind k = (\<Sum>(a, f)\<leftarrow>kvs. if a = k then int (length (Deps f)) else 0)"
    and c: "\<And>d k. count_list (g d) k =
              (\<Sum>(a, f)\<leftarrow>kvs. if a = k then count_list (dep_names f) d else 0)"
    unfolding usable_deps_def by (simp_all add: deg_def)
  have d': "deg ind k = int (length (deps_of ?c k))" for k
    unfolding d [of k] sum_list_distinct_key [OF keys]
    by (simp add: deps_of_def dep_names_def split: option.splits)
  have "count_list (g d) k = count_list (deps_of ?c k) d" for d k
    unfolding c [of d k] sum_list_distinct_key [OF keys]
    by (simp add: deps_of_def split: option.splits)
  then have g: "graph_of ?c g" unfolding graph_of_def by blast
  have dom: "dom ?c = set (map fst kvs)" by (simp add: dom_map_of_conv_image_fst)
  have "kahn_inv ?c (filter (\<lambda>n. deg ind n = 0) ns) ind []"
    unfolding kahn_inv_def using ns d' by (auto simp: enumerates_def dom)
  from kahn_inv_drain [OF g this] u show ?thesis unfolding ko' by blast
qed

lemma kahn_order_usable:
  "usable_deps kvs \<Longrightarrow> \<exists>ko. kahn_order kvs ns = Inr ko"
proof -
  assume "usable_deps kvs"
  then have "list_all (\<lambda>(a, f). list_all (usable (map_of kvs)) (Deps f)) kvs"
    by (simp add: usable_deps_def)
  from build_graph_usable [OF this, of "([], \<lambda>_. [])"] obtain s' where
    "build_graph (map_of kvs) kvs ([], \<lambda>_. []) = Inr s'" by blast
  then show ?thesis by (cases s') (simp add: kahn_order_def)
qed

lemma kahn_complete:
  assumes inv: "kahn_inv (map_of kvs) [] ind ko"
    and u: "usable_deps kvs" and ac: "acyclic (dep_rel kvs)"
  shows "set ko = dom (map_of kvs)"
proof (rule ccontr)
  let ?c = "map_of kvs"
  assume ne: "set ko \<noteq> dom ?c"
  from inv have sub: "set ko \<subseteq> dom ?c"
    and rem: "\<And>a. deg ind a = int (length (filter (\<lambda>d. d \<notin> set ko) (deps_of ?c a)))"
    and zero: "\<And>a. a \<in> dom ?c \<Longrightarrow> a \<in> set ko \<longleftrightarrow> deg ind a = 0"
    unfolding kahn_inv_def by auto
  have "dep_rel kvs \<subseteq> dom ?c \<times> dom ?c"
    using usable_deps_dom [OF u] deps_of_dom unfolding dep_rel_def by fastforce
  moreover have "finite (dom ?c \<times> dom ?c)" by (simp add: finite_dom_map_of)
  ultimately have "finite (dep_rel kvs)" by (rule finite_subset)
  then have wf: "wf (dep_rel kvs)" using ac by (rule finite_acyclic_wf)
  from ne sub obtain x where "x \<in> dom ?c - set ko" by blast
  from wfE_min [OF wf this] obtain z where
    z: "z \<in> dom ?c - set ko" and minimal: "\<And>y. (y, z) \<in> dep_rel kvs \<Longrightarrow> y \<notin> dom ?c - set ko"
    by blast
  from z zero [of z] have "deg ind z \<noteq> 0" by simp
  with rem [of z] have "filter (\<lambda>d. d \<notin> set ko) (deps_of ?c z) \<noteq> []" by auto
  then obtain d where d: "d \<in> set (deps_of ?c z)" "d \<notin> set ko"
    by (auto simp: filter_empty_conv)
  from usable_deps_dom [OF u d(1)] have "d \<in> dom ?c" by auto
  moreover from d(1) have "(d, z) \<in> dep_rel kvs" by (simp add: dep_rel_def)
  ultimately show False using minimal d(2) by blast
qed

lemma topological_wf:
  assumes "distinct ord" and "\<And>d a. (d, a) \<in> dep_rel kvs \<Longrightarrow> before ord d a"
  shows "wf (dep_rel kvs)"
proof -
  have "dep_rel kvs \<subseteq> measure (position ord)"
    using before_position [OF assms(2) assms(1)] by auto
  with wf_measure show ?thesis by (rule wf_subset)
qed

lemma topological_acyclic:
  assumes "distinct ord" and "\<And>d a. (d, a) \<in> dep_rel kvs \<Longrightarrow> before ord d a"
  shows "acyclic (dep_rel kvs)"
  using topological_wf [OF assms] by (rule wf_acyclic)

lemma full_length:
  assumes keys: "distinct (map fst kvs)" and "distinct ko" and "set ko \<subseteq> dom (map_of kvs)"
  shows "length ko = length kvs \<longleftrightarrow> set ko = dom (map_of kvs)"
proof -
  have dom: "dom (map_of kvs) = set (map fst kvs)" by (simp add: dom_map_of_conv_image_fst)
  have ck: "card (set (map fst kvs)) = length kvs" using distinct_card [OF keys] by simp
  have co: "card (set ko) = length ko" using assms(2) by (rule distinct_card)
  show ?thesis
  proof
    assume "length ko = length kvs"
    with ck co have "card (set ko) = card (set (map fst kvs))" by simp
    with assms(3) show "set ko = dom (map_of kvs)" unfolding dom
      by (intro card_subset_eq) simp_all
  next
    assume "set ko = dom (map_of kvs)"
    with ck co dom show "length ko = length kvs" by simp
  qed
qed

lemma split_finals_total:
  "set xs \<subseteq> dom c \<Longrightarrow> \<exists>ord. split_finals c xs normal finals = Inr ord"
  by (induction xs arbitrary: normal finals) (auto split: option.splits)

lemma usable_iff:
  "usable (map_of kvs) dep \<longleftrightarrow> map_of kvs (Name dep) \<noteq> None \<and> \<not> flagged kvs dep"
  by (cases "map_of kvs (Name dep)") (simp_all add: usable_def flagged_def)

lemma usable_deps_iff: "usable_deps kvs \<longleftrightarrow> deps_resolved kvs \<and> no_flagged_deps kvs"
  unfolding usable_deps_def deps_resolved_def no_flagged_deps_def list_all_iff usable_iff
  by blast

lemma BuildOrder_sound:
  assumes keys: "distinct (map fst kvs)" and ns: "enumerates ns kvs"
    and ok: "BuildOrder kvs ns = Inr ord"
  shows "usable_deps kvs" and "distinct ord" and "set ord = set (map fst kvs)"
    and "\<And>d a. (d, a) \<in> dep_rel kvs \<Longrightarrow> before ord d a"
proof -
  let ?c = "map_of kvs"
  from ok obtain ko where ko: "kahn_order kvs ns = Inr ko"
    and len: "length ko = length kvs"
    and sp: "split_finals ?c ko [] [] = Inr ord"
    by (auto simp: BuildOrder_def split: sum.splits if_splits)
  from kahn_order_Inr [OF keys ns ko] obtain ind where
    u: "usable_deps kvs" and inv: "kahn_inv ?c [] ind ko" by blast
  from inv have dist: "distinct ko" and sub: "set ko \<subseteq> dom ?c"
    and topo: "\<And>a d. a \<in> set ko \<Longrightarrow> d \<in> set (deps_of ?c a) \<Longrightarrow> before ko d a"
    unfolding kahn_inv_def by auto
  from full_length [OF keys dist sub] len have all: "set ko = dom ?c" by simp
  from split_finals_filter [OF sp]
  have ord: "ord = filter (\<lambda>a. \<not> is_final kvs a) ko @ filter (is_final kvs) ko" by simp
  show "usable_deps kvs" by (rule u)
  show "distinct ord" unfolding ord using dist by auto
  show "set ord = set (map fst kvs)"
    unfolding ord using all by (auto simp: dom_map_of_conv_image_fst)
  show "before ord d a" if "(d, a) \<in> dep_rel kvs" for d a
  proof -
    from that have d: "d \<in> set (deps_of ?c a)" by (simp add: dep_rel_def)
    then have "a \<in> set ko" using all deps_of_dom by fastforce
    from topo [OF this d] have b: "before ko d a" .
    from usable_deps_dom [OF u d] have nf: "\<not> is_final kvs d" by (auto simp: is_final_def)
    show ?thesis
    proof (cases "is_final kvs a")
      case True
      from b have "d \<in> set ko" "a \<in> set ko" by (simp_all add: before_set)
      with nf True have "d \<in> set (filter (\<lambda>a. \<not> is_final kvs a) ko)"
        and "a \<in> set (filter (is_final kvs) ko)" by simp_all
      then show ?thesis unfolding ord by (rule before_across)
    next
      case False
      from before_filter [of ko d a "\<lambda>a. \<not> is_final kvs a", OF b nf False]
      show ?thesis unfolding ord by (rule before_append)
    qed
  qed
qed

lemma BuildOrder_result:
  assumes keys: "distinct (map fst kvs)" and ns: "enumerates ns kvs"
    and u: "usable_deps kvs"
  shows "if acyclic (dep_rel kvs) then \<exists>ord. BuildOrder kvs ns = Inr ord
         else BuildOrder kvs ns = Inl CircularDependency"
proof -
  let ?c = "map_of kvs"
  from kahn_order_usable [OF u] obtain ko where ko: "kahn_order kvs ns = Inr ko" by blast
  from kahn_order_Inr [OF keys ns ko] obtain ind where inv: "kahn_inv ?c [] ind ko" by blast
  from inv have dist: "distinct ko" and sub: "set ko \<subseteq> dom ?c"
    unfolding kahn_inv_def by auto
  show ?thesis
  proof (cases "acyclic (dep_rel kvs)")
    case True
    from kahn_complete [OF inv u True] have all: "set ko = dom ?c" .
    with full_length [OF keys dist sub] have "length ko = length kvs" by simp
    moreover from split_finals_total [OF sub] obtain ord where
      "split_finals ?c ko [] [] = Inr ord" by blast
    ultimately have "BuildOrder kvs ns = Inr ord" using ko by (simp add: BuildOrder_def)
    with True show ?thesis by auto
  next
    case False
    have "length ko \<noteq> length kvs"
    proof
      assume len: "length ko = length kvs"
      from split_finals_total [OF sub] obtain ord where
        "split_finals ?c ko [] [] = Inr ord" by blast
      with len ko have ok: "BuildOrder kvs ns = Inr ord" by (simp add: BuildOrder_def)
      from topological_acyclic [of ord kvs]
        BuildOrder_sound(2) [OF keys ns ok] BuildOrder_sound(4) [OF keys ns ok]
      have "acyclic (dep_rel kvs)" by blast
      with False show False by simp
    qed
    with ko False show ?thesis by (simp add: BuildOrder_def)
  qed
qed

lemma dep_rel_iff:
  "(d, a) \<in> dep_rel kvs \<longleftrightarrow> (\<exists>f. map_of kvs a = Some f \<and> d \<in> set (dep_names f))"
  by (cases "map_of kvs a") (simp_all add: dep_rel_def deps_of_def)

lemma add_edges_Inl:
  "add_edges c a deps s = Inl e \<Longrightarrow> \<exists>dep \<in> set deps. edge_error c a dep = Some e"
proof (induction deps arbitrary: s)
  case Nil
  then show ?case by simp
next
  case (Cons dep deps)
  obtain ind g where s: "s = (ind, g)" by (cases s)
  show ?case
  proof (cases "edge_error c a dep")
    case None
    then obtain df where "c (Name dep) = Some df" "\<not> Final df" "\<not> Disable df"
      by (auto simp: edge_error_def split: option.splits if_splits)
    with Cons.prems have
      "add_edges c a deps (put a (deg ind a + 1) ind, g(Name dep := g (Name dep) @ [a])) = Inl e"
      unfolding s by simp
    from Cons.IH [OF this] show ?thesis by auto
  next
    case (Some e')
    with Cons.prems have "e' = e" unfolding s
      by (auto simp: edge_error_def split: option.splits if_splits)
    with Some show ?thesis by simp
  qed
qed

lemma build_graph_Inl:
  "build_graph c kvs s = Inl e \<Longrightarrow>
     \<exists>(a, f) \<in> set kvs. \<exists>dep \<in> set (Deps f). edge_error c a dep = Some e"
proof (induction kvs arbitrary: s)
  case Nil
  then show ?case by simp
next
  case (Cons kv kvs)
  obtain a f where kv: "kv = (a, f)" by (cases kv)
  obtain ind g where s: "s = (ind, g)" by (cases s)
  let ?s0 = "(if map_of ind a = None then put a 0 ind else ind, g)"
  show ?case
  proof (cases "add_edges c a (Deps f) ?s0")
    case (Inl e')
    with Cons.prems have "e' = e" unfolding kv s by simp
    with add_edges_Inl [OF Inl] show ?thesis unfolding kv by auto
  next
    case (Inr s1)
    with Cons.prems have "build_graph c kvs s1 = Inl e" unfolding kv s by simp
    from Cons.IH [OF this] show ?thesis by auto
  qed
qed

lemma BuildOrder_unusable:
  assumes "\<not> usable_deps kvs"
  shows "\<exists>e. BuildOrder kvs ns = Inl e
           \<and> (\<exists>(a, f) \<in> set kvs. \<exists>dep \<in> set (Deps f). edge_error (map_of kvs) a dep = Some e)"
proof (cases "build_graph (map_of kvs) kvs ([], \<lambda>_. [])")
  case (Inl e)
  then have "BuildOrder kvs ns = Inl e" by (simp add: BuildOrder_def kahn_order_def)
  with build_graph_Inl [OF Inl] show ?thesis by blast
next
  case (Inr s')
  obtain ind g where "s' = (ind, g)" by (cases s')
  with Inr build_graph_Inr [of "map_of kvs" kvs "[]" "\<lambda>_. []" ind g] assms
  show ?thesis by (simp add: usable_deps_def)
qed

lemma acyclic_by_order:
  assumes "list_all (\<lambda>(a, f). list_all (\<lambda>dep. position ord (Name dep) < position ord a) (Deps f)) kvs"
  shows "acyclic (dep_rel kvs)"
proof -
  have "(d, a) \<in> measure (position ord)" if "(d, a) \<in> dep_rel kvs" for d a
  proof -
    from that obtain f where f: "map_of kvs a = Some f" and d: "d \<in> set (dep_names f)"
      by (auto simp: dep_rel_iff)
    from f have "(a, f) \<in> set kvs" by (rule map_of_SomeD)
    with assms d show ?thesis by (auto simp: list_all_iff dep_names_def)
  qed
  then have "dep_rel kvs \<subseteq> measure (position ord)" by auto
  with wf_measure have "wf (dep_rel kvs)" by (rule wf_subset)
  then show ?thesis by (rule wf_acyclic)
qed

lemma cyclic_by_edges:
  assumes "(a, b) \<in> dep_rel kvs" and "(b, a) \<in> dep_rel kvs"
  shows "\<not> acyclic (dep_rel kvs)"
proof -
  from assms have "(a, a) \<in> (dep_rel kvs)\<^sup>+" by (meson trancl.simps)
  then show ?thesis by (auto simp: acyclic_def)
qed

section \<open>Claims about BuildOrder\<close>

text \<open>
  C1, as amended. For every container with unique keys whose dependency graph is acyclic,
  whose every dependency name keys a factory, and in which no dependency names a factory
  flagged Final or Disable, BuildOrder returns an order, for every order in which the
  runtime enumerates the two maps; the order contains each alias exactly once, and every
  dependency of every factory stands before that factory's alias.
\<close>

theorem BuildOrder_topological:
  assumes "distinct (map fst kvs)" and "enumerates ns kvs"
    and "deps_resolved kvs" and "no_flagged_deps kvs" and "acyclic (dep_rel kvs)"
  shows "\<exists>ord. BuildOrder kvs ns = Inr ord \<and> mset ord = mset (map fst kvs)
           \<and> (\<forall>(a, f) \<in> set kvs. \<forall>dep \<in> set (Deps f).
                 position ord (Name dep) < position ord a)"
proof -
  from assms(3,4) have u: "usable_deps kvs" by (simp add: usable_deps_iff)
  from BuildOrder_result [OF assms(1,2) u] assms(5)
  obtain ord where ok: "BuildOrder kvs ns = Inr ord" by auto
  note s = BuildOrder_sound [OF assms(1,2) ok]
  have "mset ord = mset (map fst kvs)"
    using set_eq_iff_mset_eq_distinct [OF s(2) assms(1)] s(3) by blast
  moreover have "position ord (Name dep) < position ord a"
    if "(a, f) \<in> set kvs" "dep \<in> set (Deps f)" for a f dep
  proof -
    from that(1) assms(1) have "map_of kvs a = Some f" by simp
    with that(2) have "(Name dep, a) \<in> dep_rel kvs"
      by (auto simp: dep_rel_iff dep_names_def)
    from before_position [OF s(4) [OF this] s(2)] show ?thesis .
  qed
  ultimately show ?thesis using ok by blast
qed

theorem BuildOrder_topological_witness:
  "distinct (map fst wiring) \<and> enumerates [''server'', ''cache'', ''db''] wiring
   \<and> deps_resolved wiring \<and> no_flagged_deps wiring \<and> acyclic (dep_rel wiring)
   \<and> BuildOrder wiring [''server'', ''cache'', ''db''] = Inr [''db'', ''cache'', ''server'']
   \<and> (\<exists>ord. BuildOrder wiring [''server'', ''cache'', ''db''] = Inr ord
         \<and> mset ord = mset (map fst wiring)
         \<and> (\<forall>(a, f) \<in> set wiring. \<forall>dep \<in> set (Deps f).
               position ord (Name dep) < position ord a))"
proof -
  have h1: "distinct (map fst wiring)" by (simp add: wiring_def)
  have h2: "enumerates [''server'', ''cache'', ''db''] wiring"
    by (auto simp: enumerates_def wiring_def)
  have h3: "deps_resolved wiring"
    by (simp add: deps_resolved_def wiring_def a_factory_def shared_def fresh_def)
  have h4: "no_flagged_deps wiring"
    by (simp add: no_flagged_deps_def flagged_def wiring_def a_factory_def shared_def fresh_def)
  have h5: "acyclic (dep_rel wiring)"
    by (rule acyclic_by_order [of "[''db'', ''cache'', ''server'']"])
       (simp add: wiring_def a_factory_def shared_def fresh_def position_def)
  have r: "BuildOrder wiring [''server'', ''cache'', ''db''] = Inr [''db'', ''cache'', ''server'']"
    by (simp add: BuildOrder_def kahn_order_def wiring_def a_factory_def shared_def fresh_def
        deg_def)
  from BuildOrder_topological [OF h1 h2 h3 h4 h5] h1 h2 h3 h4 h5 r show ?thesis by blast
qed

text \<open>
  C1 as stated fails: the container below is acyclic and every dependency name keys a
  factory, but \<open>cache\<close> depends on \<open>db\<close>, which is flagged Final, and lines 27 to 29
  return the error instead of an order.
\<close>

theorem BuildOrder_topological_counterexample:
  "distinct (map fst final_db) \<and> deps_resolved final_db \<and> acyclic (dep_rel final_db)
   \<and> BuildOrder final_db [''db'', ''cache''] = Inl (FinalDependency ''db'' ''cache'')"
proof -
  have "acyclic (dep_rel final_db)"
    by (rule acyclic_by_order [of "[''db'', ''cache'']"])
       (simp add: final_db_def a_factory_def shared_def position_def)
  moreover have "BuildOrder final_db [''db'', ''cache''] = Inl (FinalDependency ''db'' ''cache'')"
    by (simp add: BuildOrder_def kahn_order_def final_db_def a_factory_def shared_def deg_def)
  ultimately show ?thesis
    by (simp add: deps_resolved_def final_db_def a_factory_def shared_def)
qed

text \<open>
  C2. In every order that BuildOrder returns, the aliases flagged Final are a contiguous
  suffix, and the order is the stable partition of the order of the queue-draining
  phase: the non-final aliases in their relative order, then the final ones in theirs.
\<close>

theorem BuildOrder_finals_suffix:
  "BuildOrder kvs ns = Inr ord \<Longrightarrow>
     (\<exists>ko. kahn_order kvs ns = Inr ko
         \<and> ord = filter (\<lambda>a. \<not> is_final kvs a) ko @ filter (is_final kvs) ko
         \<and> (\<forall>i < length ord.
               is_final kvs (ord ! i) \<longleftrightarrow> length (filter (\<lambda>a. \<not> is_final kvs a) ko) \<le> i))"
proof -
  assume a: "BuildOrder kvs ns = Inr ord"
  then obtain ko where ko: "kahn_order kvs ns = Inr ko"
    and sp: "split_finals (map_of kvs) ko [] [] = Inr ord"
    by (auto simp: BuildOrder_def split: sum.splits if_splits)
  from split_finals_filter [OF sp]
  have ord: "ord = filter (\<lambda>a. \<not> is_final kvs a) ko @ filter (is_final kvs) ko"
    by simp
  have "\<forall>i < length ord.
          is_final kvs (ord ! i) \<longleftrightarrow> length (filter (\<lambda>a. \<not> is_final kvs a) ko) \<le> i"
    unfolding ord using partition_suffix [of _ "is_final kvs" ko] by blast
  with ko ord show ?thesis by blast
qed

theorem BuildOrder_finals_suffix_witness:
  "BuildOrder final_log [''log'', ''cache'', ''db''] = Inr [''db'', ''cache'', ''log'']
   \<and> kahn_order final_log [''log'', ''cache'', ''db''] = Inr [''log'', ''db'', ''cache'']
   \<and> (\<exists>ko. kahn_order final_log [''log'', ''cache'', ''db''] = Inr ko
         \<and> [''db'', ''cache'', ''log''] =
             filter (\<lambda>a. \<not> is_final final_log a) ko @ filter (is_final final_log) ko
         \<and> (\<forall>i < length [''db'', ''cache'', ''log''].
               is_final final_log ([''db'', ''cache'', ''log''] ! i)
                 \<longleftrightarrow> length (filter (\<lambda>a. \<not> is_final final_log a) ko) \<le> i))"
proof -
  have k: "kahn_order final_log [''log'', ''cache'', ''db''] = Inr [''log'', ''db'', ''cache'']"
    by (simp add: kahn_order_def final_log_def a_factory_def shared_def deg_def)
  have h: "BuildOrder final_log [''log'', ''cache'', ''db''] = Inr [''db'', ''cache'', ''log'']"
    unfolding BuildOrder_def k by (simp add: final_log_def a_factory_def)
  from BuildOrder_finals_suffix [OF h] h k show ?thesis by blast
qed

text \<open>
  C3, as amended. For every container with unique keys whose dependency graph contains a
  cycle, in which no dependency names a factory flagged Final or Disable and every
  dependency name keys a factory, BuildOrder returns the "circular dependency" error,
  for every order in which the runtime enumerates the two maps.
\<close>

theorem BuildOrder_cycle:
  assumes "distinct (map fst kvs)" and "enumerates ns kvs"
    and "deps_resolved kvs" and "no_flagged_deps kvs" and "\<not> acyclic (dep_rel kvs)"
  shows "BuildOrder kvs ns = Inl CircularDependency"
proof -
  from assms(3,4) have u: "usable_deps kvs" by (simp add: usable_deps_iff)
  from BuildOrder_result [OF assms(1,2) u] assms(5) show ?thesis by simp
qed

theorem BuildOrder_cycle_witness:
  "distinct (map fst cycle_ab) \<and> enumerates [''b'', ''a''] cycle_ab
   \<and> deps_resolved cycle_ab \<and> no_flagged_deps cycle_ab \<and> \<not> acyclic (dep_rel cycle_ab)
   \<and> BuildOrder cycle_ab [''b'', ''a''] = Inl CircularDependency"
proof -
  have h1: "distinct (map fst cycle_ab)" by (simp add: cycle_ab_def)
  have h2: "enumerates [''b'', ''a''] cycle_ab"
    by (auto simp: enumerates_def cycle_ab_def)
  have h3: "deps_resolved cycle_ab"
    by (simp add: deps_resolved_def cycle_ab_def a_factory_def shared_def)
  have h4: "no_flagged_deps cycle_ab"
    by (simp add: no_flagged_deps_def flagged_def cycle_ab_def a_factory_def shared_def)
  have h5: "\<not> acyclic (dep_rel cycle_ab)"
    by (rule cyclic_by_edges [of "''a''" "''b''"])
       (simp_all add: dep_rel_iff dep_names_def cycle_ab_def a_factory_def shared_def)
  from BuildOrder_cycle [OF h1 h2 h3 h4 h5] h1 h2 h3 h4 h5 show ?thesis by blast
qed

text \<open>
  C3 as stated fails: in the container below \<open>a\<close> and \<open>b\<close> depend on each other and no
  dependency names a flagged factory, but \<open>b\<close> also names \<open>z\<close>, which keys no factory;
  line 27 reads a field of the nil pointer and the run panics.
\<close>

theorem BuildOrder_cycle_counterexample:
  "\<not> acyclic (dep_rel dangling_cycle) \<and> no_flagged_deps dangling_cycle
   \<and> BuildOrder dangling_cycle [''a'', ''b''] = Inl NilPointerPanic"
proof -
  have "\<not> acyclic (dep_rel dangling_cycle)"
    by (rule cyclic_by_edges [of "''a''" "''b''"])
       (simp_all add: dep_rel_iff dep_names_def dangling_cycle_def a_factory_def shared_def)
  moreover have "no_flagged_deps dangling_cycle"
    by (simp add: no_flagged_deps_def flagged_def dangling_cycle_def a_factory_def shared_def)
  moreover have "BuildOrder dangling_cycle [''a'', ''b''] = Inl NilPointerPanic"
    by (simp add: BuildOrder_def kahn_order_def dangling_cycle_def a_factory_def shared_def
        deg_def)
  ultimately show ?thesis by blast
qed

text \<open>
  C4, as amended. For every container in which some dependency names a factory flagged
  Final or Disable, BuildOrder returns no order; when every dependency name keys a
  factory, what it returns is the error of lines 28 or 32 for a dependency with a flagged
  factory and the alias that lists it: the Final error if that factory is flagged Final,
  the Disable error otherwise.
\<close>

theorem BuildOrder_flagged_dependency:
  assumes "\<not> no_flagged_deps kvs"
  shows "(\<exists>e. BuildOrder kvs ns = Inl e)
       \<and> (deps_resolved kvs \<longrightarrow>
            (\<exists>a f dep df. (a, f) \<in> set kvs \<and> dep \<in> set (Deps f)
               \<and> map_of kvs (Name dep) = Some df \<and> (Final df \<or> Disable df)
               \<and> BuildOrder kvs ns =
                   Inl (if Final df then FinalDependency (Name dep) a
                        else DisableDependency (Name dep) a)))"
proof -
  from assms have "\<not> usable_deps kvs" by (simp add: usable_deps_iff)
  from BuildOrder_unusable [OF this, of ns] obtain e a f dep where
    e: "BuildOrder kvs ns = Inl e" and af: "(a, f) \<in> set kvs" and dep: "dep \<in> set (Deps f)"
    and ee: "edge_error (map_of kvs) a dep = Some e"
    by blast
  have "\<exists>a f dep df. (a, f) \<in> set kvs \<and> dep \<in> set (Deps f)
               \<and> map_of kvs (Name dep) = Some df \<and> (Final df \<or> Disable df)
               \<and> BuildOrder kvs ns =
                   Inl (if Final df then FinalDependency (Name dep) a
                        else DisableDependency (Name dep) a)"
    if r: "deps_resolved kvs"
  proof -
    from r af dep have "map_of kvs (Name dep) \<noteq> None"
      unfolding deps_resolved_def list_all_iff by blast
    then obtain df where df: "map_of kvs (Name dep) = Some df" by blast
    with ee have "Final df \<or> Disable df"
      and "e = (if Final df then FinalDependency (Name dep) a
                else DisableDependency (Name dep) a)"
      by (auto simp: edge_error_def split: if_splits)
    with e af dep df show ?thesis by blast
  qed
  with e show ?thesis by blast
qed

theorem BuildOrder_flagged_dependency_witness:
  "\<not> no_flagged_deps final_db
   \<and> BuildOrder final_db [''cache'', ''db''] = Inl (FinalDependency ''db'' ''cache'')
   \<and> (\<exists>e. BuildOrder final_db [''cache'', ''db''] = Inl e)
   \<and> deps_resolved final_db
   \<and> (\<exists>a f dep df. (a, f) \<in> set final_db \<and> dep \<in> set (Deps f)
           \<and> map_of final_db (Name dep) = Some df \<and> (Final df \<or> Disable df)
           \<and> BuildOrder final_db [''cache'', ''db''] =
               Inl (if Final df then FinalDependency (Name dep) a
                    else DisableDependency (Name dep) a))"
proof -
  have h: "\<not> no_flagged_deps final_db"
    by (simp add: no_flagged_deps_def flagged_def final_db_def a_factory_def shared_def)
  have d: "deps_resolved final_db"
    by (simp add: deps_resolved_def final_db_def a_factory_def shared_def)
  have r: "BuildOrder final_db [''cache'', ''db''] = Inl (FinalDependency ''db'' ''cache'')"
    by (simp add: BuildOrder_def kahn_order_def final_db_def a_factory_def shared_def deg_def)
  from BuildOrder_flagged_dependency [OF h, of "[''cache'', ''db'']"] h r d
  show ?thesis by blast
qed

text \<open>
  C4 as stated fails: \<open>a\<close> lists \<open>log\<close>, which is flagged Final, but before it \<open>z\<close>,
  which keys no factory; the run panics at line 27 and names no dependency.
\<close>

theorem BuildOrder_flagged_dependency_counterexample:
  "\<not> no_flagged_deps dangling_final
   \<and> BuildOrder dangling_final [''a'', ''log''] = Inl NilPointerPanic"
proof -
  have "\<not> no_flagged_deps dangling_final"
    by (simp add: no_flagged_deps_def flagged_def dangling_final_def a_factory_def shared_def)
  moreover have "BuildOrder dangling_final [''a'', ''log''] = Inl NilPointerPanic"
    by (simp add: BuildOrder_def kahn_order_def dangling_final_def a_factory_def shared_def
        deg_def)
  ultimately show ?thesis by blast
qed

section \<open>The two passes of the graph builder\<close>

lemma factory_aliases_member:
  "a \<in> set (factory_aliases xs) \<Longrightarrow> \<exists>p f fl ps. FactoryAnnotation p f a fl ps \<in> set xs"
  by (induction xs rule: factory_aliases.induct) auto

lemma add_factories_prefix:
  "distinct (factory_aliases pre) \<Longrightarrow> set (factory_aliases pre) \<inter> dom c = {} \<Longrightarrow>
     \<exists>c'. (\<forall>rest. add_factories Join modPath (pre @ rest) c = add_factories Join modPath rest c')
        \<and> (\<forall>p f a fl ps. FactoryAnnotation p f a fl ps \<in> set pre
              \<longrightarrow> (\<exists>e. c' a = Some e \<and> Module e = Join modPath p))
        \<and> (\<forall>k. k \<notin> set (factory_aliases pre) \<longrightarrow> c' k = c k)"
proof (induction pre arbitrary: c)
  case Nil
  show ?case by (intro exI [of _ c]) simp
next
  case (Cons x pre)
  show ?case
  proof (cases x)
    case (FactoryAnnotation p f a fl ps)
    let ?c1 = "c(a \<mapsto> new_factory f (Join modPath p))"
    from Cons.prems have none: "c a = None" and d: "distinct (factory_aliases pre)"
      and fresh: "a \<notin> set (factory_aliases pre)"
      and disj: "set (factory_aliases pre) \<inter> dom c = {}"
      unfolding FactoryAnnotation by auto
    from disj fresh have "set (factory_aliases pre) \<inter> dom ?c1 = {}" by auto
    from Cons.IH [OF d this] obtain c' where
      1: "\<And>rest. add_factories Join modPath (pre @ rest) ?c1 = add_factories Join modPath rest c'"
      and 2: "\<And>p f a fl ps. FactoryAnnotation p f a fl ps \<in> set pre
              \<Longrightarrow> \<exists>e. c' a = Some e \<and> Module e = Join modPath p"
      and 3: "\<And>k. k \<notin> set (factory_aliases pre) \<Longrightarrow> c' k = ?c1 k"
      by blast
    have step: "add_factories Join modPath ((x # pre) @ rest) c = add_factories Join modPath rest c'"
      for rest
      using none 1 [of rest] unfolding FactoryAnnotation by simp
    have head: "\<exists>e. c' a = Some e \<and> Module e = Join modPath p"
      using 3 [OF fresh] by (simp add: new_factory_def)
    have mem: "\<exists>e. c' a' = Some e \<and> Module e = Join modPath p'"
      if "FactoryAnnotation p' f' a' fl' ps' \<in> set (x # pre)" for p' f' a' fl' ps'
    proof (cases "FactoryAnnotation p' f' a' fl' ps' = x")
      case True
      with head show ?thesis unfolding FactoryAnnotation by simp
    next
      case False
      with that have "FactoryAnnotation p' f' a' fl' ps' \<in> set pre" by auto
      then show ?thesis by (rule 2)
    qed
    have keep: "c' k = c k" if "k \<notin> set (factory_aliases (x # pre))" for k
      using that 3 [of k] unfolding FactoryAnnotation by simp
    show ?thesis
      by (intro exI [of _ c'] conjI allI impI) (rule step, erule mem, erule keep)
  next
    case (WireAnnotation x21 x22 x23 x24 x25)
    with Cons.prems Cons.IH [of c] show ?thesis by simp
  next
    case (FinalAnnotation x31 x32 x33 x34)
    with Cons.prems Cons.IH [of c] show ?thesis by simp
  next
    case (DisableAnnotation x41 x42 x43 x44)
    with Cons.prems Cons.IH [of c] show ?thesis by simp
  qed
qed

lemma add_factories_skip_wire:
  "add_factories Join modPath (xs @ WireAnnotation p t ds fl ps # ys) c =
     add_factories Join modPath (xs @ ys) c"
proof (induction xs arbitrary: c)
  case Nil
  show ?case by simp
next
  case (Cons a xs)
  show ?case
  proof (cases a)
    case (FactoryAnnotation path func al fl' ps')
    show ?thesis
    proof (cases "c al")
      case None
      let ?c = "c(al \<mapsto> new_factory func (Join modPath path))"
      have "add_factories Join modPath ((a # xs) @ WireAnnotation p t ds fl ps # ys) c =
              add_factories Join modPath (xs @ WireAnnotation p t ds fl ps # ys) ?c"
        using None unfolding FactoryAnnotation by simp
      also have "\<dots> = add_factories Join modPath (xs @ ys) ?c" by (rule Cons.IH)
      also have "\<dots> = add_factories Join modPath ((a # xs) @ ys) c"
        using None unfolding FactoryAnnotation by simp
      finally show ?thesis .
    next
      case (Some existing)
      then show ?thesis unfolding FactoryAnnotation by simp
    qed
  qed (simp_all add: Cons.IH)
qed

lemma add_factories_dom:
  "add_factories Join modPath anns c = Inr c' \<Longrightarrow> dom c' = dom c \<union> set (factory_aliases anns)"
proof (induction anns arbitrary: c)
  case Nil
  then show ?case by simp
next
  case (Cons a anns)
  show ?case
  proof (cases a)
    case (FactoryAnnotation path func al fl' ps')
    show ?thesis
    proof (cases "c al")
      case None
      with Cons.prems have
        "add_factories Join modPath anns (c(al \<mapsto> new_factory func (Join modPath path))) = Inr c'"
        unfolding FactoryAnnotation by simp
      from Cons.IH [OF this] show ?thesis unfolding FactoryAnnotation by auto
    next
      case (Some existing)
      with Cons.prems show ?thesis unfolding FactoryAnnotation
        by (simp split: if_splits)
    qed
  next
    case (WireAnnotation x21 x22 x23 x24 x25)
    with Cons show ?thesis by simp
  next
    case (FinalAnnotation x31 x32 x33 x34)
    with Cons show ?thesis by simp
  next
    case (DisableAnnotation x41 x42 x43 x44)
    with Cons show ?thesis by simp
  qed
qed

lemma add_wires_skip:
  "t \<notin> dom c \<Longrightarrow>
     add_wires (xs @ WireAnnotation p t ds fl ps # ys) c = add_wires (xs @ ys) c"
proof (induction xs arbitrary: c)
  case Nil
  then show ?case by (simp add: domIff)
next
  case (Cons a xs)
  show ?case
  proof (cases a)
    case (WireAnnotation path target wdeps fl' ps')
    show ?thesis
    proof (cases "c target")
      case None
      with Cons show ?thesis unfolding WireAnnotation by simp
    next
      case (Some tf)
      show ?thesis
      proof (cases "resolve_deps c target tf wdeps []")
        case (Inl e)
        with Some show ?thesis unfolding WireAnnotation by simp
      next
        case (Inr deps)
        let ?c = "c(target \<mapsto> tf\<lparr>Deps := deps\<rparr>)"
        from Some Cons.prems have fresh: "t \<notin> dom ?c" by auto
        have "add_wires ((a # xs) @ WireAnnotation p t ds fl ps # ys) c =
                add_wires (xs @ WireAnnotation p t ds fl ps # ys) ?c"
          using Some Inr unfolding WireAnnotation by simp
        also have "\<dots> = add_wires (xs @ ys) ?c" using fresh by (rule Cons.IH)
        also have "\<dots> = add_wires ((a # xs) @ ys) c"
          using Some Inr unfolding WireAnnotation by simp
        finally show ?thesis .
      qed
    qed
  next
    case (FactoryAnnotation x11 x12 x13 x14 x15)
    with Cons show ?thesis by simp
  next
    case (FinalAnnotation x31 x32 x33 x34)
    with Cons show ?thesis by simp
  next
    case (DisableAnnotation x41 x42 x43 x44)
    with Cons show ?thesis by simp
  qed
qed

lemma factory_aliases_append:
  "factory_aliases (xs @ ys) = factory_aliases xs @ factory_aliases ys"
  by (induction xs rule: factory_aliases.induct) simp_all

lemma first_duplicate:
  "\<not> distinct (factory_aliases anns) \<Longrightarrow>
     \<exists>pre p2 f2 a fl2 ps2 post.
        anns = pre @ FactoryAnnotation p2 f2 a fl2 ps2 # post
        \<and> distinct (factory_aliases pre) \<and> a \<in> set (factory_aliases pre)"
proof (induction anns rule: rev_induct)
  case Nil
  then show ?case by simp
next
  case (snoc x xs)
  show ?case
  proof (cases "distinct (factory_aliases xs)")
    case False
    from snoc.IH [OF False] obtain pre p2 f2 a fl2 ps2 post where
      "xs = pre @ FactoryAnnotation p2 f2 a fl2 ps2 # post"
      "distinct (factory_aliases pre)" "a \<in> set (factory_aliases pre)"
      by blast
    then have "xs @ [x] = pre @ FactoryAnnotation p2 f2 a fl2 ps2 # (post @ [x])
        \<and> distinct (factory_aliases pre) \<and> a \<in> set (factory_aliases pre)"
      by simp
    then show ?thesis by blast
  next
    case True
    show ?thesis
    proof (cases x)
      case (FactoryAnnotation p2 f2 a fl2 ps2)
      with snoc.prems True have "a \<in> set (factory_aliases xs)"
        by (simp add: factory_aliases_append)
      with True FactoryAnnotation have
        "xs @ [x] = xs @ FactoryAnnotation p2 f2 a fl2 ps2 # []
         \<and> distinct (factory_aliases xs) \<and> a \<in> set (factory_aliases xs)"
        by simp
      then show ?thesis by blast
    next
      case (WireAnnotation x21 x22 x23 x24 x25)
      with snoc.prems True show ?thesis by (simp add: factory_aliases_append)
    next
      case (FinalAnnotation x31 x32 x33 x34)
      with snoc.prems True show ?thesis by (simp add: factory_aliases_append)
    next
      case (DisableAnnotation x41 x42 x43 x44)
      with snoc.prems True show ?thesis by (simp add: factory_aliases_append)
    qed
  qed
qed

section \<open>Claims about the scanner\<close>

text \<open>
  C5, as amended. For every annotation list in which two Factory annotations have the same
  alias, the graph-building phase returns an error and no container. The error comes
  from the first Factory annotation whose alias was declared before it in the list; the
  message is "Duplicate Alias" or "Alias ... used by", and it names that alias and the
  module name stored for the earlier declaration of the alias, the module path joined
  with the earlier annotation's directory.
\<close>

theorem duplicate_alias_error:
  assumes "\<not> distinct (factory_aliases anns)"
  shows "\<exists>pre p1 f1 fl1 ps1 p2 f2 fl2 ps2 a post.
           anns = pre @ FactoryAnnotation p2 f2 a fl2 ps2 # post
           \<and> distinct (factory_aliases pre)
           \<and> FactoryAnnotation p1 f1 a fl1 ps1 \<in> set pre
           \<and> (build_DIConfig Join modPath anns =
                 Inl (ErrorString (''Duplicate Alias '' @ a @ '' in '' @ Join modPath p1))
              \<or> build_DIConfig Join modPath anns =
                 Inl (ErrorString (''Alias '' @ a @ '' used by '' @ Join modPath p1)))"
proof -
  from first_duplicate [OF assms] obtain pre p2 f2 a fl2 ps2 post where
    anns: "anns = pre @ FactoryAnnotation p2 f2 a fl2 ps2 # post"
    and d: "distinct (factory_aliases pre)" and a: "a \<in> set (factory_aliases pre)"
    by blast
  from factory_aliases_member [OF a] obtain p1 f1 fl1 ps1 where
    first: "FactoryAnnotation p1 f1 a fl1 ps1 \<in> set pre" by blast
  have "set (factory_aliases pre) \<inter> dom (Map.empty :: string \<rightharpoonup> Factory) = {}" by simp
  from add_factories_prefix [OF d this, of Join modPath] obtain c' where
    1: "\<forall>rest. add_factories Join modPath (pre @ rest) Map.empty =
                  add_factories Join modPath rest c'"
    and 2: "\<forall>p f a fl ps. FactoryAnnotation p f a fl ps \<in> set pre
              \<longrightarrow> (\<exists>e. c' a = Some e \<and> Module e = Join modPath p)"
    by blast
  from 2 first obtain e where e: "c' a = Some e" "Module e = Join modPath p1" by blast
  have "add_factories Join modPath anns Map.empty =
          add_factories Join modPath (FactoryAnnotation p2 f2 a fl2 ps2 # post) c'"
    unfolding anns using 1 by blast
  with e have
    "add_factories Join modPath anns Map.empty =
       Inl (ErrorString (''Duplicate Alias '' @ a @ '' in '' @ Join modPath p1))
     \<or> add_factories Join modPath anns Map.empty =
       Inl (ErrorString (''Alias '' @ a @ '' used by '' @ Join modPath p1))"
    by simp
  then have
    "build_DIConfig Join modPath anns =
       Inl (ErrorString (''Duplicate Alias '' @ a @ '' in '' @ Join modPath p1))
     \<or> build_DIConfig Join modPath anns =
       Inl (ErrorString (''Alias '' @ a @ '' used by '' @ Join modPath p1))"
    by (auto simp: build_DIConfig_def)
  with anns d first show ?thesis by blast
qed

theorem duplicate_alias_error_witness:
  "\<not> distinct (factory_aliases two_dbs)
   \<and> (\<exists>pre p1 f1 fl1 ps1 p2 f2 fl2 ps2 a post.
           two_dbs = pre @ FactoryAnnotation p2 f2 a fl2 ps2 # post
           \<and> distinct (factory_aliases pre)
           \<and> FactoryAnnotation p1 f1 a fl1 ps1 \<in> set pre
           \<and> (build_DIConfig join_slash ''example.com/app'' two_dbs =
                 Inl (ErrorString (''Duplicate Alias '' @ a @ '' in ''
                                     @ join_slash ''example.com/app'' p1))
              \<or> build_DIConfig join_slash ''example.com/app'' two_dbs =
                 Inl (ErrorString (''Alias '' @ a @ '' used by ''
                                     @ join_slash ''example.com/app'' p1))))"
proof -
  have h: "\<not> distinct (factory_aliases two_dbs)" by (simp add: two_dbs_def)
  from duplicate_alias_error [OF h, of join_slash "''example.com/app''"] h
  show ?thesis by blast
qed

text \<open>
  C5 as stated fails: \<open>db\<close> is declared in \<open>store\<close> and again in \<open>cache\<close>, and the
  message names the alias and the module of the first declaration; the second location
  is not in it.
\<close>

theorem duplicate_alias_error_counterexample:
  "build_DIConfig join_slash ''example.com/app'' two_dbs =
     Inl (ErrorString ''Alias db used by example.com/app/store'')"
  by (simp add: build_DIConfig_def two_dbs_def join_slash_def new_factory_def)

text \<open>
  C8. The claim says that a directive value that does not fit its grammar gives a parse
  error local to the file. The code has no such check: a \<open>factory\<close> value without an
  arrow and a \<open>wire\<close> value without parentheses panic at the index expression of lines
  67 and 79, and a \<open>factory\<close> value with three tokens gives an annotation.
\<close>

theorem malformed_directive_panics:
  "parseFactoryAnnotation (meta ''factory'' ''NewDB'') = Inl (IndexOutOfRange 1 1)
   \<and> parseWireAnnotation (meta ''wire'' ''server db'') = Inl (IndexOutOfRange 1 0)
   \<and> parseFactoryAnnotation (meta ''factory'' ''NewDB -> db -> x'') =
       Inr (FactoryAnnotation ''store'' ''NewDB'' ''db'' [] [])"
  by (simp add: parseFactoryAnnotation_def parseWireAnnotation_def meta_def TrimSpace_def
      isSpace_def Split_def wireRe_def isWord_def index_def)

text \<open>
  C9. A Wire annotation whose target is the alias of no Factory annotation of the list
  changes nothing: the graph-building phase returns what it returns for the list without
  that annotation, the same container or the same error.
\<close>

theorem wire_without_factory_ignored:
  assumes "target \<notin> set (factory_aliases (xs @ ys))"
  shows "build_DIConfig Join modPath (xs @ WireAnnotation path target deps fl ps # ys) =
           build_DIConfig Join modPath (xs @ ys)"
proof (cases "add_factories Join modPath (xs @ ys) Map.empty")
  case (Inl e)
  then show ?thesis by (simp add: build_DIConfig_def add_factories_skip_wire)
next
  case (Inr c)
  from add_factories_dom [OF Inr] assms have "target \<notin> dom c" by simp
  from add_wires_skip [OF this] Inr show ?thesis
    by (simp add: build_DIConfig_def add_factories_skip_wire)
qed

theorem wire_without_factory_ignored_witness:
  "''server'' \<notin> set (factory_aliases
       ([FactoryAnnotation ''store'' ''NewDB'' ''db'' [] []]
        @ [FactoryAnnotation ''cache'' ''NewCache'' ''cache'' [] [],
           WireAnnotation ''cache'' ''cache'' [''^db''] [] []]))
   \<and> build_DIConfig join_slash ''example.com/app'' stray_wire =
       build_DIConfig join_slash ''example.com/app''
         ([FactoryAnnotation ''store'' ''NewDB'' ''db'' [] []]
          @ [FactoryAnnotation ''cache'' ''NewCache'' ''cache'' [] [],
             WireAnnotation ''cache'' ''cache'' [''^db''] [] []])
   \<and> (\<exists>c. build_DIConfig join_slash ''example.com/app'' stray_wire = Inr c
          \<and> c ''server'' = None
          \<and> c ''cache'' = Some (new_factory ''NewCache'' ''example.com/app/cache''
                 \<lparr>Deps := [\<lparr>Name = ''db'', Standalone = True\<rparr>]\<rparr>))"
proof -
  let ?xs = "[FactoryAnnotation ''store'' ''NewDB'' ''db'' [] []]"
  let ?ys = "[FactoryAnnotation ''cache'' ''NewCache'' ''cache'' [] [],
              WireAnnotation ''cache'' ''cache'' [''^db''] [] []]"
  have h: "''server'' \<notin> set (factory_aliases (?xs @ ?ys))" by simp
  have s: "stray_wire = ?xs @ WireAnnotation ''web'' ''server'' [''db''] [] [] # ?ys"
    by (simp add: stray_wire_def)
  have e: "\<exists>c. build_DIConfig join_slash ''example.com/app'' stray_wire = Inr c
          \<and> c ''server'' = None
          \<and> c ''cache'' = Some (new_factory ''NewCache'' ''example.com/app/cache''
                 \<lparr>Deps := [\<lparr>Name = ''db'', Standalone = True\<rparr>]\<rparr>)"
    by (simp add: build_DIConfig_def stray_wire_def join_slash_def TrimSpace_def isSpace_def
        HasPrefix_def Split_def index_def)
  from wire_without_factory_ignored [OF h, of join_slash "''example.com/app''" "''web''"
      "[''db'']" "[]" "[]"] h e
  show ?thesis unfolding s by blast
qed

section \<open>The emitted declarations\<close>

lemma generateArgs_fuel:
  assumes "\<And>sub ctx. sub \<in> set subs \<Longrightarrow> generateDepExpr n ctx sub config \<noteq> OutOfFuel"
  shows "generateArgs n ctx subs config args \<noteq> OutOfFuel"
  using assms
proof (induction subs arbitrary: ctx args)
  case Nil
  show ?case by simp
next
  case (Cons sub subs)
  have 1: "generateDepExpr n ctx sub config \<noteq> OutOfFuel" using Cons.prems by simp
  show ?case
  proof (cases "generateDepExpr n ctx sub config")
    case OutOfFuel
    with 1 show ?thesis by simp
  next
    case (Failed e)
    then show ?thesis by simp
  next
    case (Returns r)
    obtain e ctx' where r: "r = (e, ctx')" by (cases r)
    have "generateArgs n ctx' subs config (args @ [e]) \<noteq> OutOfFuel"
      using Cons.prems by (intro Cons.IH) simp
    with Returns r show ?thesis by simp
  qed
qed

lemma generateDepExpr_fuel:
  assumes rank: "\<And>d a. d \<in> set (deps_of config a) \<Longrightarrow> d \<in> dom config \<and> rank d < rank a"
  shows "(Name dep \<in> dom config \<longrightarrow> rank (Name dep) < n)
           \<longrightarrow> generateDepExpr (Suc n) ctx dep config \<noteq> OutOfFuel"
proof (induction n arbitrary: dep ctx)
  case 0
  show ?case by (auto split: option.splits prod.splits)
next
  case (Suc n)
  show ?case
  proof (intro impI)
    assume b: "Name dep \<in> dom config \<longrightarrow> rank (Name dep) < Suc n"
    show "generateDepExpr (Suc (Suc n)) ctx dep config \<noteq> OutOfFuel"
    proof (cases "Standalone dep")
      case False
      then show ?thesis by simp
    next
      case True
      show ?thesis
      proof (cases "config (Name dep)")
        case None
        with True show ?thesis by simp
      next
        case (Some factory)
        obtain modAlias ctx1 where ri: "ResolveImport ctx (Module factory) = (modAlias, ctx1)"
          by (cases "ResolveImport ctx (Module factory)")
        have "generateDepExpr (Suc n) c sub config \<noteq> OutOfFuel"
          if "sub \<in> set (Deps factory)" for sub c
        proof -
          from that Some have "Name sub \<in> set (deps_of config (Name dep))"
            by (simp add: deps_of_def dep_names_def)
          from rank [OF this] b Some have "rank (Name sub) < n" by auto
          with Suc.IH [of sub c] show ?thesis by simp
        qed
        then have "generateArgs (Suc n) ctx1 (Deps factory) config [] \<noteq> OutOfFuel"
          by (rule generateArgs_fuel)
        with True Some ri show ?thesis
          by (cases "generateArgs (Suc n) ctx1 (Deps factory) config []") auto
      qed
    qed
  qed
qed

lemma position_less: "x \<in> set xs \<Longrightarrow> position xs x < length xs"
  unfolding position_def by (induction xs) auto

lemma ResolveImport_props:
  assumes "ResolveImport ctx m = (a, ctx')"
  shows "map_of (ImportID ctx') m = Some a"
    and "map_of (ImportID ctx) \<subseteq>\<^sub>m map_of (ImportID ctx')"
    and "Container ctx' = Container ctx"
proof -
  show "map_of (ImportID ctx') m = Some a"
    using assms
    by (auto simp: ResolveImport_def GenUID_def Let_def map_add_def split: option.splits)
  show "map_of (ImportID ctx) \<subseteq>\<^sub>m map_of (ImportID ctx')"
    using assms
    by (auto simp: ResolveImport_def GenUID_def Let_def map_le_def map_add_def domIff
        split: option.splits)
  show "Container ctx' = Container ctx"
    using assms by (auto simp: ResolveImport_def GenUID_def Let_def split: option.splits)
qed

lemma renders_mono:
  assumes "renders config imps dep e" and "imps \<subseteq>\<^sub>m imps'"
  shows "renders config imps' dep e"
  using assms(1)
proof (induction rule: renders.induct)
  case (reuse dep f)
  then show ?case by (rule renders.reuse)
next
  case (inline dep f modAlias args)
  from inline(3) assms(2) have "imps' (Module f) = Some modAlias"
    by (auto simp: map_le_def dom_def)
  moreover from inline(4) have "list_all2 (renders config imps') (Deps f) args"
    by (rule list_all2_mono) simp
  ultimately show ?case using inline(1,2) by (intro renders.inline)
qed

lemma renders_all_mono:
  "list_all2 (renders config imps) deps es \<Longrightarrow> imps \<subseteq>\<^sub>m imps'
     \<Longrightarrow> list_all2 (renders config imps') deps es"
  by (erule list_all2_mono) (rule renders_mono)

lemma agree_Container: "Container ctx' = Container ctx \<Longrightarrow> agree config ctx' S = agree config ctx S"
  by (simp add: agree_def)

lemma generateArgs_ok:
  assumes A: "\<And>ctx dep. Name dep \<in> S \<Longrightarrow> agree config ctx S
                \<Longrightarrow> dep_ok config ctx dep (generateDepExpr n ctx dep config)"
  shows "Name ` set subs \<subseteq> S \<Longrightarrow> agree config ctx S
           \<Longrightarrow> args_ok config ctx subs args (generateArgs n ctx subs config args)"
proof (induction subs arbitrary: ctx args)
  case Nil
  show ?case by (simp add: args_ok_def)
next
  case (Cons sub subs)
  from Cons.prems have sub: "Name sub \<in> S" and subs: "Name ` set subs \<subseteq> S" by auto
  note a = A [OF sub Cons.prems(2)]
  show ?case
  proof (cases "generateDepExpr n ctx sub config")
    case OutOfFuel
    then show ?thesis by (simp add: args_ok_def)
  next
    case (Failed e)
    with a show ?thesis by (simp add: dep_ok_def)
  next
    case (Returns r)
    obtain e ctx1 where r: "r = (e, ctx1)" by (cases r)
    from a Returns r have e: "renders config (map_of (ImportID ctx1)) sub e"
      and m1: "map_of (ImportID ctx) \<subseteq>\<^sub>m map_of (ImportID ctx1)"
      and c1: "Container ctx1 = Container ctx"
      by (simp_all add: dep_ok_def)
    from Cons.prems(2) agree_Container [OF c1, of config S] have "agree config ctx1 S"
      by simp
    note ih = Cons.IH [OF subs this, of "args @ [e]"]
    have step: "generateArgs n ctx (sub # subs) config args =
                  generateArgs n ctx1 subs config (args @ [e])"
      using Returns r by simp
    show ?thesis
    proof (cases "generateArgs n ctx1 subs config (args @ [e])")
      case OutOfFuel
      then show ?thesis unfolding step by (simp add: args_ok_def)
    next
      case (Failed e')
      with ih show ?thesis by (simp add: args_ok_def)
    next
      case (Returns r')
      obtain args' ctx' where r': "r' = (args', ctx')" by (cases r')
      from ih Returns r' have
        "(\<exists>new. args' = (args @ [e]) @ new
            \<and> list_all2 (renders config (map_of (ImportID ctx'))) subs new)
         \<and> map_of (ImportID ctx1) \<subseteq>\<^sub>m map_of (ImportID ctx')
         \<and> Container ctx' = Container ctx1"
        by (simp add: args_ok_def)
      then obtain new where
        new: "args' = (args @ [e]) @ new"
        and rs: "list_all2 (renders config (map_of (ImportID ctx'))) subs new"
        and m2: "map_of (ImportID ctx1) \<subseteq>\<^sub>m map_of (ImportID ctx')"
        and c2: "Container ctx' = Container ctx1"
        by blast
      from e m2 have "renders config (map_of (ImportID ctx')) sub e" by (rule renders_mono)
      with rs have "list_all2 (renders config (map_of (ImportID ctx'))) (sub # subs) (e # new)"
        by simp
      moreover have "args' = args @ (e # new)" using new by simp
      ultimately have ex: "\<exists>new. args' = args @ new
            \<and> list_all2 (renders config (map_of (ImportID ctx'))) (sub # subs) new"
        by blast
      from m1 m2 have m: "map_of (ImportID ctx) \<subseteq>\<^sub>m map_of (ImportID ctx')"
        by (rule map_le_trans)
      have "args_ok config ctx (sub # subs) args (Returns (args', ctx'))"
        unfolding args_ok_def using ex m c1 c2 by simp
      then show ?thesis unfolding step Returns r' .
    qed
  qed
qed

lemma generateDepExpr_ok:
  assumes closed: "dep_closed config S"
  shows "Name dep \<in> S \<Longrightarrow> agree config ctx S
           \<Longrightarrow> dep_ok config ctx dep (generateDepExpr n ctx dep config)"
proof (induction n arbitrary: ctx dep)
  case 0
  show ?case by (simp add: dep_ok_def)
next
  case (Suc n)
  from Suc.prems obtain f where f: "config (Name dep) = Some f"
    and c: "Container ctx (Name dep) = Some (Alias f)"
    unfolding agree_def by blast
  show ?case
  proof (cases "Standalone dep")
    case False
    from False f have "renders config (map_of (ImportID ctx)) dep (Ident (Alias f))"
      by (rule renders.reuse)
    with False c show ?thesis by (simp add: dep_ok_def ident_of_def)
  next
    case True
    obtain modAlias ctx1 where ri: "ResolveImport ctx (Module f) = (modAlias, ctx1)"
      by (cases "ResolveImport ctx (Module f)")
    note p = ResolveImport_props [OF ri]
    from Suc.prems(2) agree_Container [OF p(3), of config S] have a1: "agree config ctx1 S"
      by simp
    have "set (deps_of config (Name dep)) \<subseteq> S"
      using closed Suc.prems(1) unfolding dep_closed_def by blast
    then have names: "Name ` set (Deps f) \<subseteq> S" using f by (simp add: deps_of_def dep_names_def)
    have ok: "args_ok config ctx1 (Deps f) [] (generateArgs n ctx1 (Deps f) config [])"
    proof (rule generateArgs_ok [of S config n])
      show "dep_ok config c d (generateDepExpr n c d config)"
        if "Name d \<in> S" "agree config c S" for c d
        using that by (rule Suc.IH)
      show "Name ` set (Deps f) \<subseteq> S" by (rule names)
      show "agree config ctx1 S" by (rule a1)
    qed
    have step: "generateDepExpr (Suc n) ctx dep config =
      (case generateArgs n ctx1 (Deps f) config [] of
         OutOfFuel \<Rightarrow> OutOfFuel
       | Failed e \<Rightarrow> Failed e
       | Returns (args, ctx2) \<Rightarrow>
           Returns (CallExpr (SelectorExpr (Ident modAlias) (Function f)) args, ctx2))"
      using True f ri by simp
    show ?thesis
    proof (cases "generateArgs n ctx1 (Deps f) config []")
      case OutOfFuel
      then show ?thesis unfolding step by (simp add: dep_ok_def)
    next
      case (Failed e)
      with ok show ?thesis by (simp add: args_ok_def)
    next
      case (Returns r)
      obtain args ctx2 where r: "r = (args, ctx2)" by (cases r)
      from ok Returns r have rs: "list_all2 (renders config (map_of (ImportID ctx2))) (Deps f) args"
        and m2: "map_of (ImportID ctx1) \<subseteq>\<^sub>m map_of (ImportID ctx2)"
        and c2: "Container ctx2 = Container ctx1"
        by (auto simp: args_ok_def)
      from p(1) m2 have "map_of (ImportID ctx2) (Module f) = Some modAlias"
        by (auto simp: map_le_def dom_def)
      with True f have
        "renders config (map_of (ImportID ctx2)) dep
           (CallExpr (SelectorExpr (Ident modAlias) (Function f)) args)"
        using rs by (intro renders.inline)
      moreover from p(2) m2 have "map_of (ImportID ctx) \<subseteq>\<^sub>m map_of (ImportID ctx2)"
        by (rule map_le_trans)
      ultimately show ?thesis unfolding step using Returns r c2 p(3)
        by (simp add: dep_ok_def)
    qed
  qed
qed

lemma declares_mono:
  "declares config imps item st \<Longrightarrow> imps \<subseteq>\<^sub>m imps' \<Longrightarrow> declares config imps' item st"
proof -
  assume d: "declares config imps item st" and m: "imps \<subseteq>\<^sub>m imps'"
  from d obtain f modAlias args where f: "config item = Some f"
    and i: "imps (Module f) = Some modAlias"
    and r: "list_all2 (renders config imps) (Deps f) args"
    and st: "st = DeclStmt (line_directive f) (Alias f)
                    (CallExpr (SelectorExpr (Ident modAlias) (Function f)) args)"
    unfolding declares_def by blast
  from i m have "imps' (Module f) = Some modAlias" by (auto simp: map_le_def dom_def)
  moreover from r m have "list_all2 (renders config imps') (Deps f) args"
    by (rule renders_all_mono)
  ultimately show ?thesis unfolding declares_def using f st by blast
qed

lemma emit_correct:
  "dep_closed config S \<Longrightarrow> agree config ctx S \<Longrightarrow> topo_from config S items
     \<Longrightarrow> set items \<subseteq> dom config
     \<Longrightarrow> emit_ok config ctx items stmts ids (emit fuel config items ctx stmts ids)"
proof (induction items arbitrary: S ctx stmts ids)
  case Nil
  show ?case by (simp add: emit_ok_def)
next
  case (Cons item rest)
  from Cons.prems(4) obtain f where f: "config item = Some f" by auto
  define ctx0 where "ctx0 = ctx\<lparr>Container := (Container ctx)(item \<mapsto> Alias f)\<rparr>"
  from Cons.prems(3) have deps: "set (deps_of config item) \<subseteq> S"
    and topo: "topo_from config (insert item S) rest" by simp_all
  have a0: "agree config ctx0 (insert item S)"
    using Cons.prems(2) f unfolding agree_def ctx0_def by auto
  then have a0S: "agree config ctx0 S" unfolding agree_def by blast
  have closed': "dep_closed config (insert item S)"
    using Cons.prems(1) deps unfolding dep_closed_def by auto
  have names: "Name ` set (Deps f) \<subseteq> S" using deps f by (simp add: deps_of_def dep_names_def)
  have ok: "args_ok config ctx0 (Deps f) [] (generateArgs fuel ctx0 (Deps f) config [])"
  proof (rule generateArgs_ok [of S config fuel])
    show "dep_ok config c d (generateDepExpr fuel c d config)"
      if "Name d \<in> S" "agree config c S" for c d
      using Cons.prems(1) that by (rule generateDepExpr_ok)
    show "Name ` set (Deps f) \<subseteq> S" by (rule names)
    show "agree config ctx0 S" by (rule a0S)
  qed
  show ?case
  proof (cases "generateArgs fuel ctx0 (Deps f) config []")
    case OutOfFuel
    then show ?thesis using f by (simp add: emit_ok_def ctx0_def)
  next
    case (Failed e)
    with ok show ?thesis by (simp add: args_ok_def)
  next
    case (Returns r)
    obtain args ctx1 where r: "r = (args, ctx1)" by (cases r)
    from ok Returns r have rs: "list_all2 (renders config (map_of (ImportID ctx1))) (Deps f) args"
      and m1: "map_of (ImportID ctx0) \<subseteq>\<^sub>m map_of (ImportID ctx1)"
      and c1: "Container ctx1 = Container ctx0"
      by (simp_all add: args_ok_def)
    obtain modAlias ctx2 where ri: "ResolveImport ctx1 (Module f) = (modAlias, ctx2)"
      by (cases "ResolveImport ctx1 (Module f)")
    note p = ResolveImport_props [OF ri]
    define st where "st = DeclStmt (line_directive f) (Alias f)
                            (CallExpr (SelectorExpr (Ident modAlias) (Function f)) args)"
    have step: "emit fuel config (item # rest) ctx stmts ids =
                  emit fuel config rest ctx2 (stmts @ [st]) (ids @ [Ident (Alias f)])"
      using f Returns r ri by (simp add: ctx0_def st_def Let_def)
    have "Container ctx2 = Container ctx0" using p(3) c1 by simp
    from agree_Container [OF this, of config "insert item S"] a0
    have a2: "agree config ctx2 (insert item S)" by simp
    from Cons.prems(4) have rest: "set rest \<subseteq> dom config" by simp
    note ih = Cons.IH [OF closed' a2 topo rest, of "stmts @ [st]" "ids @ [Ident (Alias f)]"]
    have m02: "map_of (ImportID ctx) \<subseteq>\<^sub>m map_of (ImportID ctx2)"
      using m1 p(2) by (auto simp: ctx0_def intro: map_le_trans)
    have d2: "declares config (map_of (ImportID ctx2)) item st"
      unfolding declares_def st_def
      using f p(1) renders_all_mono [OF rs p(2)] by blast
    show ?thesis
    proof (cases "emit fuel config rest ctx2 (stmts @ [st]) (ids @ [Ident (Alias f)])")
      case OutOfFuel
      then show ?thesis unfolding step by (simp add: emit_ok_def)
    next
      case (Failed e)
      with ih show ?thesis by (simp add: emit_ok_def)
    next
      case (Returns r')
      obtain stmts' ids' ctx' where r': "r' = (stmts', ids', ctx')" by (cases r')
      from ih Returns r' have
        "(\<exists>new. stmts' = (stmts @ [st]) @ new
            \<and> list_all2 (declares config (map_of (ImportID ctx'))) rest new)
         \<and> ids' = (ids @ [Ident (Alias f)]) @ map (\<lambda>a. Ident (alias_of config a)) rest
         \<and> map_of (ImportID ctx2) \<subseteq>\<^sub>m map_of (ImportID ctx')"
        by (simp add: emit_ok_def)
      then obtain new where new: "stmts' = (stmts @ [st]) @ new"
        and ds: "list_all2 (declares config (map_of (ImportID ctx'))) rest new"
        and ids': "ids' = (ids @ [Ident (Alias f)]) @ map (\<lambda>a. Ident (alias_of config a)) rest"
        and m2: "map_of (ImportID ctx2) \<subseteq>\<^sub>m map_of (ImportID ctx')"
        by blast
      from d2 m2 have "declares config (map_of (ImportID ctx')) item st" by (rule declares_mono)
      with ds have "list_all2 (declares config (map_of (ImportID ctx'))) (item # rest) (st # new)"
        by simp
      moreover have "stmts' = stmts @ (st # new)" using new by simp
      ultimately have ex: "\<exists>new. stmts' = stmts @ new
            \<and> list_all2 (declares config (map_of (ImportID ctx'))) (item # rest) new"
        by blast
      have i: "ids' = ids @ map (\<lambda>a. Ident (alias_of config a)) (item # rest)"
        using ids' f by (simp add: alias_of_def)
      from m02 m2 have m: "map_of (ImportID ctx) \<subseteq>\<^sub>m map_of (ImportID ctx')"
        by (rule map_le_trans)
      have "emit_ok config ctx (item # rest) stmts ids (Returns (stmts', ids', ctx'))"
        unfolding emit_ok_def using ex i m by simp
      then show ?thesis unfolding step Returns r' .
    qed
  qed
qed

lemma emit_fuel:
  assumes "\<And>dep ctx. generateDepExpr fuel ctx dep config \<noteq> OutOfFuel"
  shows "emit fuel config items ctx stmts ids \<noteq> OutOfFuel"
proof (induction items arbitrary: ctx stmts ids)
  case Nil
  show ?case by simp
next
  case (Cons item rest)
  show ?case
  proof (cases "config item")
    case None
    then show ?thesis by simp
  next
    case (Some f)
    let ?ctx0 = "ctx\<lparr>Container := (Container ctx)(item \<mapsto> Alias f)\<rparr>"
    have g: "generateArgs fuel ?ctx0 (Deps f) config [] \<noteq> OutOfFuel"
      by (rule generateArgs_fuel) (rule assms)
    show ?thesis
    proof (cases "generateArgs fuel ?ctx0 (Deps f) config []")
      case OutOfFuel
      with g show ?thesis by simp
    next
      case (Failed e)
      with Some show ?thesis by (simp add: Let_def)
    next
      case (Returns r)
      obtain args ctx1 where r: "r = (args, ctx1)" by (cases r)
      obtain modAlias ctx2 where ri: "ResolveImport ctx1 (Module f) = (modAlias, ctx2)"
        by (cases "ResolveImport ctx1 (Module f)")
      from Some Returns r ri Cons.IH show ?thesis by (simp add: Let_def)
    qed
  qed
qed

lemma declares_names:
  "list_all2 (declares config imps) items stmts \<Longrightarrow>
     decl_names stmts = map (alias_of config) items"
proof (induction rule: list_all2_induct)
  case Nil
  show ?case by simp
next
  case (Cons item items st stmts)
  then show ?case by (auto simp: declares_def alias_of_def)
qed

lemma decl_names_append: "decl_names (xs @ ys) = decl_names xs @ decl_names ys"
  by (induction xs rule: decl_names.induct) simp_all

lemma same_split:
  assumes "distinct (us @ a # vs)" and "us @ a # vs = us' @ a # vs'"
  shows "us' = us"
proof -
  from assms(1) have "a \<notin> set us" by simp
  then have 1: "takeWhile (\<lambda>y. y \<noteq> a) (us @ a # vs) = us" by (rule takeWhile_fresh)
  from assms have "distinct (us' @ a # vs')" by simp
  then have "a \<notin> set us'" by simp
  then have "takeWhile (\<lambda>y. y \<noteq> a) (us' @ a # vs') = us'" by (rule takeWhile_fresh)
  with 1 assms(2) show ?thesis by simp
qed

lemma topo_from_order:
  "distinct (us @ vs) \<Longrightarrow>
   (\<And>a d. a \<in> set vs \<Longrightarrow> d \<in> set (deps_of config a) \<Longrightarrow> before (us @ vs) d a)
     \<Longrightarrow> topo_from config (set us) vs"
proof (induction vs arbitrary: us)
  case Nil
  show ?case by simp
next
  case (Cons a vs)
  have "d \<in> set us" if "d \<in> set (deps_of config a)" for d
  proof -
    from Cons.prems(2) [OF _ that] have "before (us @ a # vs) d a" by simp
    then obtain us' vs' where eq: "us @ a # vs = us' @ a # vs'" and d: "d \<in> set us'"
      unfolding before_def by blast
    from same_split [OF Cons.prems(1) eq] d show ?thesis by simp
  qed
  then have 1: "set (deps_of config a) \<subseteq> set us" by blast
  have "topo_from config (set (us @ [a])) vs"
  proof (rule Cons.IH)
    show "distinct ((us @ [a]) @ vs)" using Cons.prems(1) by simp
    show "before ((us @ [a]) @ vs) d b" if "b \<in> set vs" "d \<in> set (deps_of config b)" for b d
      using Cons.prems(2) [of b d] that by simp
  qed
  with 1 show ?case by simp
qed

lemma map_of_normalize:
  "map_of (normalize_modules ToSlash Rel root moduleName kvs) a =
     map_option (\<lambda>f. f\<lparr>Module := sanitizeModulePath ToSlash Rel (Module f) root moduleName\<rparr>)
       (map_of kvs a)"
  unfolding normalize_modules_def by (induction kvs) auto

lemma deps_of_normalize:
  "deps_of (map_of (normalize_modules ToSlash Rel root moduleName kvs)) a = deps_of (map_of kvs) a"
  by (cases "map_of kvs a") (simp_all add: deps_of_def map_of_normalize dep_names_def)

lemma alias_of_normalize:
  "alias_of (map_of (normalize_modules ToSlash Rel root moduleName kvs)) a = alias_of (map_of kvs) a"
  by (cases "map_of kvs a") (simp_all add: alias_of_def map_of_normalize)

lemma dom_normalize:
  "dom (map_of (normalize_modules ToSlash Rel root moduleName kvs)) = dom (map_of kvs)"
  by (auto simp: map_of_normalize domIff)

lemma GenerateCode_returns:
  assumes keys: "distinct (map fst kvs)" and ns: "enumerates ns kvs"
    and ok: "BuildOrder kvs ns = Inr order" and fuel: "length kvs < fuel"
  shows "\<exists>file imps stmts.
           GenerateCode ToSlash Rel fuel ns ms root moduleName kvs = Returns file
           \<and> list_all2 (declares (map_of (normalize_modules ToSlash Rel root moduleName kvs)) imps)
                 order stmts
           \<and> root_body file =
                 stmts @ keep_alive (map_of (normalize_modules ToSlash Rel root moduleName kvs)) order
           \<and> decl_names (root_body file) =
                 map (alias_of (map_of (normalize_modules ToSlash Rel root moduleName kvs))) order"
proof -
  let ?c = "map_of (normalize_modules ToSlash Rel root moduleName kvs)"
  let ?ctx = "\<lparr>ImportID = [], Container = Map.empty, Counter = 0\<rparr>"
  note s = BuildOrder_sound [OF keys ns ok]
  have len: "length order = length kvs"
    using s(2,3) keys by (metis distinct_card length_map)
  have edge: "before order d a" if "d \<in> set (deps_of ?c a)" for d a
    using that s(4) [of d a] by (simp add: deps_of_normalize dep_rel_def)
  have "dom ?c = dom (map_of kvs)" by (rule dom_normalize)
  also have "\<dots> = set (map fst kvs)" by (simp add: dom_map_of_conv_image_fst)
  finally have dom: "set order = dom ?c" using s(3) by simp
  have "topo_from ?c (set []) order"
    by (rule topo_from_order) (use s(2) edge in simp_all)
  then have topo: "topo_from ?c {} order" by simp
  have "emit_ok ?c ?ctx order [] [] (emit fuel ?c order ?ctx [] [])"
    by (rule emit_correct [of ?c "{}"]) (use topo dom in \<open>simp_all add: dep_closed_def agree_def\<close>)
  moreover have "emit fuel ?c order ?ctx [] [] \<noteq> OutOfFuel"
  proof (rule emit_fuel)
    fix dep :: Dependency and ctx :: GenContext
    from fuel obtain n where n: "fuel = Suc n" "length kvs \<le> n" by (cases fuel) auto
    have rank: "d \<in> dom ?c \<and> position order d < position order a"
      if "d \<in> set (deps_of ?c a)" for d a
    proof -
      from edge [OF that] have b: "before order d a" .
      then have "d \<in> set order" by (simp add: before_set)
      with dom before_position [OF b s(2)] show ?thesis by simp
    qed
    have "position order (Name dep) < n" if "Name dep \<in> dom ?c"
      using that dom position_less [of "Name dep" order] len n(2) by simp
    then have "Name dep \<in> dom ?c \<longrightarrow> position order (Name dep) < n" by blast
    with generateDepExpr_fuel [of ?c "position order" dep n ctx] rank
    show "generateDepExpr fuel ctx dep ?c \<noteq> OutOfFuel" unfolding n(1) by blast
  qed
  ultimately obtain stmts ids ctx' where
    e: "emit fuel ?c order ?ctx [] [] = Returns (stmts, ids, ctx')"
    and ds: "list_all2 (declares ?c (map_of (ImportID ctx'))) order stmts"
    and ids: "ids = map (\<lambda>a. Ident (alias_of ?c a)) order"
    by (cases "emit fuel ?c order ?ctx [] []") (auto simp: emit_ok_def)
  define body where "body = stmts @ keep_alive ?c order"
  define out where "out =
    (if ImportID ctx' \<noteq> []
     then [ImportDecl ((''dix'', ''github.com/smtdfc/dix'')
                        # map (\<lambda>m. (import_alias ctx' m, m)) (ms ctx')),
           FuncDecl ''Root'' body]
     else [FuncDecl ''Root'' body])"
  have g: "GenerateCode ToSlash Rel fuel ns ms root moduleName kvs = Returns out"
    unfolding GenerateCode_def out_def body_def keep_alive_def
    using ok e ids by (simp add: Let_def)
  have b: "root_body out = stmts @ keep_alive ?c order" by (simp add: out_def body_def)
  have "decl_names (stmts @ keep_alive ?c order) = map (alias_of ?c) order"
    using declares_names [OF ds] by (simp add: decl_names_append keep_alive_def)
  then have n: "decl_names (root_body out) = map (alias_of ?c) order" unfolding b .
  show ?thesis
    by (intro exI [of _ out] exI [of _ "map_of (ImportID ctx')"] exI [of _ stmts] conjI)
       (rule g, rule ds, rule b, rule n)
qed






section \<open>Claims about the code emitter\<close>

text \<open>
  C6. When BuildOrder returns an order and the fuel exceeds the number of factories,
  GenerateCode returns a file whose function body is one declaration for each alias of
  the order, in that order, followed by the keep-alive call, and nothing else: a
  standalone dependency adds no declaration. The value of each declaration is the call
  of the factory's constructor, and each argument renders one dependency: a
  non-standalone one as the identifier declared for its alias, a standalone one as an
  inline call of its factory's constructor whose arguments render that factory's own
  dependencies in the same way.
\<close>

theorem GenerateCode_standalone:
  assumes "distinct (map fst kvs)" and "enumerates ns kvs"
    and "BuildOrder kvs ns = Inr order" and "length kvs < fuel"
  shows "\<exists>file imps stmts.
           GenerateCode ToSlash Rel fuel ns ms root moduleName kvs = Returns file
           \<and> list_all2
                 (declares (map_of (normalize_modules ToSlash Rel root moduleName kvs)) imps)
                 order stmts
           \<and> root_body file =
                 stmts
                 @ keep_alive (map_of (normalize_modules ToSlash Rel root moduleName kvs)) order
           \<and> decl_names (root_body file) =
                 map (alias_of (map_of (normalize_modules ToSlash Rel root moduleName kvs)))
                   order"
  using assms by (rule GenerateCode_returns)

theorem GenerateCode_standalone_witness:
  "distinct (map fst wiring) \<and> enumerates [''server'', ''cache'', ''db''] wiring
   \<and> BuildOrder wiring [''server'', ''cache'', ''db''] = Inr [''db'', ''cache'', ''server'']
   \<and> length wiring < 4
   \<and> GenerateCode slash_id rel_strip 4 [''server'', ''cache'', ''db''] insertion_order
         ''/src'' ''example.com/app'' wiring =
       Returns
         [ImportDecl
            [(''dix'', ''github.com/smtdfc/dix''),
             (''id_1'', ''example.com/app/db''),
             (''id_2'', ''example.com/app/cache''),
             (''id_3'', ''example.com/app/server'')],
          FuncDecl ''Root''
            [DeclStmt (CHR 0x0A # ''//line db.go 3'') ''db''
               (CallExpr (SelectorExpr (Ident ''id_1'') ''Newdb'') []),
             DeclStmt (CHR 0x0A # ''//line cache.go 3'') ''cache''
               (CallExpr (SelectorExpr (Ident ''id_2'') ''Newcache'') [Ident ''db'']),
             DeclStmt (CHR 0x0A # ''//line server.go 3'') ''server''
               (CallExpr (SelectorExpr (Ident ''id_3'') ''Newserver'')
                  [Ident ''db'',
                   CallExpr (SelectorExpr (Ident ''id_2'') ''Newcache'') [Ident ''db'']]),
             ExprStmt
               (CallExpr (SelectorExpr (Ident ''dix'') ''Mark'')
                  [Ident ''db'', Ident ''cache'', Ident ''server''])]]
   \<and> (\<exists>file imps stmts.
         GenerateCode slash_id rel_strip 4 [''server'', ''cache'', ''db''] insertion_order
           ''/src'' ''example.com/app'' wiring = Returns file
         \<and> list_all2
               (declares (map_of (normalize_modules slash_id rel_strip ''/src''
                                    ''example.com/app'' wiring)) imps)
               [''db'', ''cache'', ''server''] stmts
         \<and> root_body file =
               stmts
               @ keep_alive (map_of (normalize_modules slash_id rel_strip ''/src''
                                       ''example.com/app'' wiring))
                   [''db'', ''cache'', ''server'']
         \<and> decl_names (root_body file) =
               map (alias_of (map_of (normalize_modules slash_id rel_strip ''/src''
                                        ''example.com/app'' wiring)))
                 [''db'', ''cache'', ''server''])"
proof -
  have h1: "distinct (map fst wiring)" by (simp add: wiring_def)
  have h2: "enumerates [''server'', ''cache'', ''db''] wiring"
    by (auto simp: enumerates_def wiring_def)
  have h3: "BuildOrder wiring [''server'', ''cache'', ''db''] = Inr [''db'', ''cache'', ''server'']"
    by (simp add: BuildOrder_def kahn_order_def wiring_def a_factory_def shared_def fresh_def
        deg_def)
  have h4: "length wiring < 4" by (simp add: wiring_def)
  have r: "GenerateCode slash_id rel_strip 4 [''server'', ''cache'', ''db''] insertion_order
         ''/src'' ''example.com/app'' wiring =
       Returns
         [ImportDecl
            [(''dix'', ''github.com/smtdfc/dix''),
             (''id_1'', ''example.com/app/db''),
             (''id_2'', ''example.com/app/cache''),
             (''id_3'', ''example.com/app/server'')],
          FuncDecl ''Root''
            [DeclStmt (CHR 0x0A # ''//line db.go 3'') ''db''
               (CallExpr (SelectorExpr (Ident ''id_1'') ''Newdb'') []),
             DeclStmt (CHR 0x0A # ''//line cache.go 3'') ''cache''
               (CallExpr (SelectorExpr (Ident ''id_2'') ''Newcache'') [Ident ''db'']),
             DeclStmt (CHR 0x0A # ''//line server.go 3'') ''server''
               (CallExpr (SelectorExpr (Ident ''id_3'') ''Newserver'')
                  [Ident ''db'',
                   CallExpr (SelectorExpr (Ident ''id_2'') ''Newcache'') [Ident ''db'']]),
             ExprStmt
               (CallExpr (SelectorExpr (Ident ''dix'') ''Mark'')
                  [Ident ''db'', Ident ''cache'', Ident ''server''])]]"
    by code_simp
  from GenerateCode_standalone [OF h1 h2 h3 h4, of slash_id rel_strip insertion_order
      "''/src''" "''example.com/app''"] h1 h2 h3 h4 r
  show ?thesis by blast
qed




text \<open>
  C10. When BuildOrder returns an order for a container, every dependency name keys a
  factory, the dependency relation is well-founded, and \<open>generateDepExpr\<close> ends for
  every dependency and every context: with more fuel than the container has factories
  it never runs out of fuel. Each standalone step goes to a factory that stands
  earlier in the order, so the depth of the recursion is below the number of factories.
\<close>

theorem generateDepExpr_terminates:
  assumes "distinct (map fst kvs)" and "enumerates ns kvs"
    and "BuildOrder kvs ns = Inr ord"
  shows "deps_resolved kvs \<and> wf (dep_rel kvs)
         \<and> (\<forall>fuel > length kvs. \<forall>dep ctx.
               generateDepExpr fuel ctx dep (map_of kvs) \<noteq> OutOfFuel)"
proof (intro conjI allI impI)
  note s = BuildOrder_sound [OF assms]
  show "deps_resolved kvs" using s(1) by (simp add: usable_deps_iff)
  show "wf (dep_rel kvs)" using s(2) s(4) by (rule topological_wf)
  fix fuel :: nat and dep :: Dependency and ctx :: GenContext
  assume "length kvs < fuel"
  then obtain n where fuel: "fuel = Suc n" and n: "length kvs \<le> n" by (cases fuel) auto
  have len: "length ord = length kvs"
    using s(2,3) assms(1) by (metis distinct_card length_map)
  have rank: "d \<in> dom (map_of kvs) \<and> position ord d < position ord a"
    if "d \<in> set (deps_of (map_of kvs) a)" for d a
  proof -
    from usable_deps_dom [OF s(1) that] have "d \<in> dom (map_of kvs)" by auto
    moreover from that have "(d, a) \<in> dep_rel kvs" by (simp add: dep_rel_def)
    from before_position [OF s(4) [OF this] s(2)] have "position ord d < position ord a" .
    ultimately show ?thesis by simp
  qed
  have "position ord (Name dep) < n" if "Name dep \<in> dom (map_of kvs)"
  proof -
    from that s(3) have "Name dep \<in> set ord" by (simp add: dom_map_of_conv_image_fst)
    from position_less [OF this] len n show ?thesis by simp
  qed
  then have "Name dep \<in> dom (map_of kvs) \<longrightarrow> position ord (Name dep) < n" by blast
  with generateDepExpr_fuel [of "map_of kvs" "position ord" dep n ctx] rank
  show "generateDepExpr fuel ctx dep (map_of kvs) \<noteq> OutOfFuel"
    unfolding fuel by blast
qed

theorem generateDepExpr_terminates_witness:
  "distinct (map fst wiring) \<and> enumerates [''server'', ''cache'', ''db''] wiring
   \<and> BuildOrder wiring [''server'', ''cache'', ''db''] = Inr [''db'', ''cache'', ''server'']
   \<and> deps_resolved wiring \<and> wf (dep_rel wiring)
   \<and> generateDepExpr 4 \<lparr>ImportID = [], Container = Map.empty, Counter = 0\<rparr>
         (fresh ''server'') (map_of wiring) \<noteq> OutOfFuel
   \<and> generateDepExpr 2 \<lparr>ImportID = [], Container = Map.empty, Counter = 0\<rparr>
         (fresh ''server'') (map_of wiring) = OutOfFuel"
proof -
  have h1: "distinct (map fst wiring)" by (simp add: wiring_def)
  have h2: "enumerates [''server'', ''cache'', ''db''] wiring"
    by (auto simp: enumerates_def wiring_def)
  have h3: "BuildOrder wiring [''server'', ''cache'', ''db''] = Inr [''db'', ''cache'', ''server'']"
    by (simp add: BuildOrder_def kahn_order_def wiring_def a_factory_def shared_def fresh_def
        deg_def)
  have "length wiring < 4" by (simp add: wiring_def)
  with generateDepExpr_terminates [OF h1 h2 h3]
  have "deps_resolved wiring \<and> wf (dep_rel wiring)"
    and "generateDepExpr 4 \<lparr>ImportID = [], Container = Map.empty, Counter = 0\<rparr>
         (fresh ''server'') (map_of wiring) \<noteq> OutOfFuel"
    by blast+
  moreover have "generateDepExpr 2 \<lparr>ImportID = [], Container = Map.empty, Counter = 0\<rparr>
         (fresh ''server'') (map_of wiring) = OutOfFuel"
    unfolding numeral_2_eq_2
    by (simp add: wiring_def a_factory_def shared_def fresh_def ResolveImport_def GenUID_def)
  ultimately show ?thesis using h1 h2 h3 by blast
qed

end
